theory Spec2Isabelle
  imports Main "HOL-Library.Sublist"
begin

section \<open>The streaming client: \<open>chatAPI.sendMessage\<close> (\<open>src/frontend/src/api/index.ts\<close>)\<close>

text \<open>
  Text is a \<^typ>\<open>string\<close> holding its UTF-8 encoding. The line feed, the prefix
  \<open>data: \<close> and the sentinel \<open>[DONE]\<close> are ASCII, so splitting, prefix tests and
  slicing off the prefix act on the encoding as they act on the source's strings. The
  reader loop works on the text that \<open>TextDecoder.decode(value, {stream: true})\<close> returns
  for each \<open>reader.read()\<close>, so a response body is the finite list of these decoded
  chunks, each \<open>read\<close> either delivering a chunk or rejecting. What \<open>fetch\<close> gives is
  a rejection (also standing for any exception before the request is sent), a response
  whose status is not ok, a response without a body, or a body.
\<close>

datatype js_error = TypeError | HttpError | NoReader | NetworkError

datatype read = Chunk string | ReadFailed

datatype fetch_result = FetchRejected | NotOk | NoBody | Body "read list"

text \<open>\<open>chunk.split('\n')\<close>: the pieces between line feeds, always at least one piece.\<close>

fun split_nl :: "string \<Rightarrow> string list" where
  "split_nl [] = [[]]"
| "split_nl (c # cs) =
     (if c = CHR 0x0A then [] # split_nl cs
      else (case split_nl cs of [] \<Rightarrow> [[c]] | l # ls \<Rightarrow> (c # l) # ls))"

text \<open>
  The three callbacks act on a state of the caller. A callback that throws returns
  \<open>Inl\<close> and leaves the state as it was. \<open>onComplete\<close> receives a \<open>ChatResponse\<close>;
  only its \<open>content\<close> field depends on the stream and is kept.
\<close>

record 'st callbacks =
  onChunk :: "string \<Rightarrow> 'st \<Rightarrow> js_error + 'st"
  onComplete :: "string \<Rightarrow> 'st \<Rightarrow> js_error + 'st"
  onError :: "js_error \<Rightarrow> 'st \<Rightarrow> js_error + 'st"

datatype loop_result = Continue string | Returned | Threw js_error

text \<open>
  The \<open>for (const line of lines)\<close> loop, with \<open>accumulatedContent\<close> as \<open>acc\<close>. An
  exception of \<open>onChunk\<close> is caught by the inner \<open>try\<close> and only logged; an exception of
  \<open>onComplete\<close> leaves the loop towards the outer \<open>catch\<close>.
\<close>

fun process_lines ::
  "'st callbacks \<Rightarrow> string list \<Rightarrow> string \<Rightarrow> 'st \<Rightarrow> loop_result \<times> 'st" where
  "process_lines cb [] acc st = (Continue acc, st)"
| "process_lines cb (line # lines) acc st =
     (if prefix ''data: '' line then
        (let data = drop 6 line in
         if data = ''[DONE]'' then
           (case onComplete cb acc st of
              Inr st' \<Rightarrow> (Returned, st')
            | Inl e \<Rightarrow> (Threw e, st))
         else
           process_lines cb lines (acc @ data)
             (case onChunk cb data st of Inr st' \<Rightarrow> st' | Inl e \<Rightarrow> st))
      else process_lines cb lines acc st)"

text \<open>
  The \<open>while (true)\<close> loop over \<open>reader.read()\<close>. The empty list is the read that reports
  \<open>done\<close>: the loop breaks and the function returns without any callback.
\<close>

fun read_loop :: "'st callbacks \<Rightarrow> read list \<Rightarrow> string \<Rightarrow> 'st \<Rightarrow> loop_result \<times> 'st" where
  "read_loop cb [] acc st = (Returned, st)"
| "read_loop cb (ReadFailed # rs) acc st = (Threw NetworkError, st)"
| "read_loop cb (Chunk c # rs) acc st =
     (case process_lines cb (split_nl c) acc st of
        (Continue acc', st') \<Rightarrow> read_loop cb rs acc' st'
      | (Returned, st') \<Rightarrow> (Returned, st')
      | (Threw e, st') \<Rightarrow> (Threw e, st'))"

text \<open>
  The whole of \<open>chatAPI.sendMessage\<close> with all three callbacks given (as the store
  gives them). The result pairs the error the returned promise rejects with, if any,
  with the final state of the caller.
\<close>

definition chatAPI_sendMessage ::
  "'st callbacks \<Rightarrow> fetch_result \<Rightarrow> 'st \<Rightarrow> js_error option \<times> 'st" where
  "chatAPI_sendMessage cb fr st =
     (case (case fr of
              FetchRejected \<Rightarrow> (Threw NetworkError, st)
            | NotOk \<Rightarrow> (Threw HttpError, st)
            | NoBody \<Rightarrow> (Threw NoReader, st)
            | Body rs \<Rightarrow> read_loop cb rs [] st) of
        (Threw e, st') \<Rightarrow>
          (case onError cb e st' of
             Inr st'' \<Rightarrow> (None, st'')
           | Inl e' \<Rightarrow> (Some e', st'))
      | (Continue acc, st') \<Rightarrow> (None, st')
      | (Returned, st') \<Rightarrow> (None, st'))"

subsection \<open>Observing the callbacks\<close>

datatype event = Forwarded string | Completed string | Failed js_error

definition recorder :: "event list callbacks" where
  "recorder =
     \<lparr> onChunk = (\<lambda>d tr. Inr (tr @ [Forwarded d])),
       onComplete = (\<lambda>c tr. Inr (tr @ [Completed c])),
       onError = (\<lambda>e tr. Inr (tr @ [Failed e])) \<rparr>"

definition events_of :: "fetch_result \<Rightarrow> event list" where
  "events_of fr = snd (chatAPI_sendMessage recorder fr [])"

fun is_terminal :: "event \<Rightarrow> bool" where
  "is_terminal (Forwarded d) = False"
| "is_terminal (Completed c) = True"
| "is_terminal (Failed e) = True"

definition terminal_calls :: "event list \<Rightarrow> nat" where
  "terminal_calls evs = length (filter is_terminal evs)"

subsection \<open>The stream as the server sent it\<close>

text \<open>
  The fragments of a stream are the payloads of its \<open>data: \<close> lines; the stream is the
  concatenation of the chunks the reader happened to deliver (\<open>stream_fragments\<close>). The
  reader itself takes the lines of each chunk apart from the others (\<open>seen_fragments\<close>).
  \<open>delivery\<close> is what the interface promises for a sequence of fragments: each one
  forwarded in order up to the first sentinel, and then one completion carrying their
  concatenation.
\<close>

definition data_payloads :: "string list \<Rightarrow> string list" where
  "data_payloads ls = map (drop 6) (filter (prefix ''data: '') ls)"

definition stream_fragments :: "string list \<Rightarrow> string list" where
  "stream_fragments chunks = data_payloads (split_nl (concat chunks))"

definition seen_fragments :: "string list \<Rightarrow> string list" where
  "seen_fragments chunks = concat (map (\<lambda>c. data_payloads (split_nl c)) chunks)"

definition delivery :: "string list \<Rightarrow> event list" where
  "delivery ps =
     map Forwarded (takeWhile (\<lambda>p. p \<noteq> ''[DONE]'') ps) @
     (if ''[DONE]'' \<in> set ps
      then [Completed (concat (takeWhile (\<lambda>p. p \<noteq> ''[DONE]'') ps))] else [])"

definition line_aligned :: "string \<Rightarrow> bool" where
  "line_aligned c = (c = [] \<or> last c = CHR 0x0A)"

section \<open>Local storage helpers (\<open>src/unnamed/part_002\<close>, the \<open>utils\<close> module)\<close>

text \<open>
  \<open>localStorage\<close> holds text under text keys; access itself can throw when the browser
  blocks storage. \<open>JSON.parse\<close> belongs to the platform and is a parameter: it yields
  a JSON value, or nothing where it throws a \<open>SyntaxError\<close>.
\<close>

datatype json =
  JNull | JBool bool | JNum string | JStr string | JArr "json list" | JObj "(string \<times> json) list"

datatype local_storage = Blocked | Items "string \<Rightarrow> string option"

datatype storage_error = SecurityError | SyntaxError

definition getItem :: "local_storage \<Rightarrow> string \<Rightarrow> storage_error + string option" where
  "getItem ls key = (case ls of Blocked \<Rightarrow> Inl SecurityError | Items m \<Rightarrow> Inr (m key))"

definition JSON_parse :: "(string \<Rightarrow> json option) \<Rightarrow> string \<Rightarrow> storage_error + json" where
  "JSON_parse parse data = (case parse data of None \<Rightarrow> Inl SyntaxError | Some v \<Rightarrow> Inr v)"

definition CONVERSATIONS :: string where
  "CONVERSATIONS = ''llm_conversations''"

text \<open>The body of the \<open>try\<close> block that both readers share: \<open>data ? JSON.parse(data) : dflt\<close>.\<close>

definition read_or :: "(string \<Rightarrow> json option) \<Rightarrow> local_storage \<Rightarrow> string \<Rightarrow> json \<Rightarrow> storage_error + json" where
  "read_or parse ls key dflt =
     (case getItem ls key of
        Inl e \<Rightarrow> Inl e
      | Inr None \<Rightarrow> Inr dflt
      | Inr (Some data) \<Rightarrow> (if data = [] then Inr dflt else JSON_parse parse data))"

text \<open>\<open>storage.getConversations\<close>: \<open>try { ... } catch { return [] }\<close>.\<close>

definition getConversations :: "(string \<Rightarrow> json option) \<Rightarrow> local_storage \<Rightarrow> storage_error + json" where
  "getConversations parse ls =
     (case read_or parse ls CONVERSATIONS (JArr []) of
        Inl e \<Rightarrow> Inr (JArr [])
      | Inr v \<Rightarrow> Inr v)"

text \<open>\<open>loadFromLocalStorage\<close>: \<open>try { ... } catch (error) { console.error(...); return null }\<close>.\<close>

definition loadFromLocalStorage ::
  "(string \<Rightarrow> json option) \<Rightarrow> local_storage \<Rightarrow> string \<Rightarrow> storage_error + json" where
  "loadFromLocalStorage parse ls key =
     (case read_or parse ls key JNull of
        Inl e \<Rightarrow> Inr JNull
      | Inr v \<Rightarrow> Inr v)"

fun is_list :: "json \<Rightarrow> bool" where
  "is_list (JArr vs) = True"
| "is_list JNull = False"
| "is_list (JBool b) = False"
| "is_list (JNum n) = False"
| "is_list (JStr t) = False"
| "is_list (JObj kvs) = False"

text \<open>A stand-in for \<open>JSON.parse\<close> that knows the text \<open>null\<close> and rejects all else.\<close>

definition parse_null_only :: "string \<Rightarrow> json option" where
  "parse_null_only data = (if data = ''null'' then Some JNull else None)"

section \<open>The conversation store (\<open>src/unnamed/part_003\<close>, \<open>stores/conversation\<close>)\<close>

datatype role = User | Assistant

record message =
  msg_id :: string
  role :: role
  content :: string
  timestamp :: nat
  isStreaming :: "bool option"
  displayContent :: "string option"

record conversation =
  conv_id :: string
  title :: string
  messages :: "message list"
  model :: string
  deepThink :: bool
  useSearch :: bool
  createdAt :: nat
  updatedAt :: nat

record settings =
  set_model :: "string option"
  set_deepThink :: "bool option"
  set_useSearch :: "bool option"

text \<open>
  The store's three refs, together with the part of \<open>localStorage\<close> the store writes:
  what the keys \<open>conversations\<close> and \<open>currentConversationId\<close> hold, as the values
  \<open>JSON.parse\<close> gives back for them (a stored list is the snapshot taken when it was
  written; \<open>None\<close> is a missing key, unreadable text or a value that is not an array).
  \<open>storage_writable\<close> says whether \<open>localStorage.setItem\<close> succeeds at the moment;
  when it throws (the quota is used up), \<open>saveToLocalStorage\<close> logs and goes on.
\<close>

record store =
  conversations :: "conversation list"
  currentConversationId :: "string option"
  isLoading :: bool
  stored_conversations :: "conversation list option"
  stored_currentId :: "string option"
  storage_writable :: bool

text \<open>
  Text constants of the source, UTF-8 encoded: the title of a new conversation and the
  apology written into a failed assistant message.
\<close>

definition new_title :: string where
  "new_title = [CHR 0xE6, CHR 0x96, CHR 0xB0, CHR 0xE5, CHR 0xAF, CHR 0xB9, CHR 0xE8, CHR 0xAF, CHR 0x9D]"

definition apology :: string where
  "apology =
     [CHR 0xE6, CHR 0x8A, CHR 0xB1, CHR 0xE6, CHR 0xAD, CHR 0x89, CHR 0xEF, CHR 0xBC, CHR 0x8C,
      CHR 0x41, CHR 0x49, CHR 0xE5, CHR 0x9B, CHR 0x9E, CHR 0xE5, CHR 0xA4, CHR 0x8D, CHR 0xE6,
      CHR 0x97, CHR 0xB6, CHR 0xE5, CHR 0x87, CHR 0xBA, CHR 0xE7, CHR 0x8E, CHR 0xB0, CHR 0xE4,
      CHR 0xBA, CHR 0x86, CHR 0xE9, CHR 0x94, CHR 0x99, CHR 0xE8, CHR 0xAF, CHR 0xAF, CHR 0xE3,
      CHR 0x80, CHR 0x82, CHR 0xE8, CHR 0xAF, CHR 0xB7, CHR 0xE7, CHR 0xA8, CHR 0x8D, CHR 0xE5,
      CHR 0x90, CHR 0x8E, CHR 0xE9, CHR 0x87, CHR 0x8D, CHR 0xE8, CHR 0xAF, CHR 0x95, CHR 0xE3,
      CHR 0x80, CHR 0x82]"

definition defaultModel :: string where
  "defaultModel = ''deepseek-chat''"

text \<open>
  \<open>find\<close> returns the array element itself, and the source then mutates that object in
  place; \<open>update_first\<close> is that mutation on the list.
\<close>

fun update_first :: "('a \<Rightarrow> bool) \<Rightarrow> ('a \<Rightarrow> 'a) \<Rightarrow> 'a list \<Rightarrow> 'a list" where
  "update_first P f [] = []"
| "update_first P f (x # xs) = (if P x then f x # xs else x # update_first P f xs)"

text \<open>\<open>findIndex\<close> followed by \<open>splice(index, 1)\<close>.\<close>

fun remove_first :: "('a \<Rightarrow> bool) \<Rightarrow> 'a list \<Rightarrow> 'a list" where
  "remove_first P [] = []"
| "remove_first P (x # xs) = (if P x then xs else x # remove_first P xs)"

definition currentConversation :: "store \<Rightarrow> conversation option" where
  "currentConversation s =
     (case currentConversationId s of
        None \<Rightarrow> None
      | Some cid \<Rightarrow> find (\<lambda>conv. conv_id conv = cid) (conversations s))"

definition saveConversations :: "store \<Rightarrow> store" where
  "saveConversations s =
     (if storage_writable s then s\<lparr>stored_conversations := Some (conversations s)\<rparr> else s)"

definition saveCurrentId :: "string option \<Rightarrow> store \<Rightarrow> store" where
  "saveCurrentId v s = (if storage_writable s then s\<lparr>stored_currentId := v\<rparr> else s)"

text \<open>\<open>!currentConversationId.value\<close>: \<open>null\<close> and the empty string are falsy.\<close>

definition no_current_id :: "store \<Rightarrow> bool" where
  "no_current_id s = (currentConversationId s = None \<or> currentConversationId s = Some [])"

definition loadConversations :: "store \<Rightarrow> store" where
  "loadConversations s =
     (case stored_conversations s of
        None \<Rightarrow> s
      | Some saved \<Rightarrow>
          (case saved of
             [] \<Rightarrow> s\<lparr>conversations := saved\<rparr>
           | first # rest \<Rightarrow>
               (if no_current_id s
                then s\<lparr>conversations := saved, currentConversationId := Some (conv_id first)\<rparr>
                else s\<lparr>conversations := saved\<rparr>)))"

definition no_settings :: settings where
  "no_settings = \<lparr>set_model = None, set_deepThink = None, set_useSearch = None\<rparr>"

definition createNewConversation :: "settings \<Rightarrow> string \<Rightarrow> nat \<Rightarrow> store \<Rightarrow> conversation \<times> store" where
  "createNewConversation st new_id now s =
     (let newConversation =
            \<lparr> conv_id = new_id, title = new_title, messages = [],
              model = (case set_model st of
                         None \<Rightarrow> defaultModel
                       | Some m \<Rightarrow> if m = [] then defaultModel else m),
              deepThink = (case set_deepThink st of None \<Rightarrow> False | Some b \<Rightarrow> b),
              useSearch = (case set_useSearch st of None \<Rightarrow> False | Some b \<Rightarrow> b),
              createdAt = now, updatedAt = now \<rparr>
      in (newConversation,
          saveConversations
            (s\<lparr>conversations := newConversation # conversations s,
               currentConversationId := Some new_id\<rparr>)))"

definition switchConversation :: "string \<Rightarrow> store \<Rightarrow> store" where
  "switchConversation cid s =
     (case find (\<lambda>conv. conv_id conv = cid) (conversations s) of
        None \<Rightarrow> s
      | Some conv \<Rightarrow> saveCurrentId (Some cid) (s\<lparr>currentConversationId := Some cid\<rparr>))"

definition deleteConversation :: "string \<Rightarrow> store \<Rightarrow> store" where
  "deleteConversation cid s =
     (case find (\<lambda>conv. conv_id conv = cid) (conversations s) of
        None \<Rightarrow> s
      | Some conv \<Rightarrow>
          (let remaining = remove_first (\<lambda>conv. conv_id conv = cid) (conversations s);
               s1 = s\<lparr>conversations := remaining\<rparr>;
               s2 = (if currentConversationId s1 = Some cid
                     then (case remaining of
                             [] \<Rightarrow> s1\<lparr>currentConversationId := None\<rparr>
                           | first # rest \<Rightarrow> s1\<lparr>currentConversationId := Some (conv_id first)\<rparr>)
                     else s1)
           in saveConversations s2))"

definition deleteEmptyConversations :: "store \<Rightarrow> store" where
  "deleteEmptyConversations s =
     saveConversations (s\<lparr>conversations := filter (\<lambda>conv. messages conv \<noteq> []) (conversations s)\<rparr>)"

definition updateConversationTitle :: "string \<Rightarrow> string \<Rightarrow> nat \<Rightarrow> store \<Rightarrow> store" where
  "updateConversationTitle cid t now s =
     (case find (\<lambda>conv. conv_id conv = cid) (conversations s) of
        None \<Rightarrow> s
      | Some conv \<Rightarrow>
          saveConversations
            (s\<lparr>conversations :=
                 update_first (\<lambda>conv. conv_id conv = cid)
                   (\<lambda>conv. conv\<lparr>title := t, updatedAt := now\<rparr>) (conversations s)\<rparr>))"

definition apply_settings :: "settings \<Rightarrow> nat \<Rightarrow> conversation \<Rightarrow> conversation" where
  "apply_settings st now conv =
     conv\<lparr> model := (case set_model st of
                        None \<Rightarrow> model conv
                      | Some m \<Rightarrow> if m = [] then model conv else m),
            deepThink := (case set_deepThink st of None \<Rightarrow> deepThink conv | Some b \<Rightarrow> b),
            useSearch := (case set_useSearch st of None \<Rightarrow> useSearch conv | Some b \<Rightarrow> b),
            updatedAt := now \<rparr>"

definition updateConversationSettings :: "settings \<Rightarrow> nat \<Rightarrow> store \<Rightarrow> store" where
  "updateConversationSettings st now s =
     (case currentConversation s of
        None \<Rightarrow> s
      | Some cur \<Rightarrow>
          saveConversations
            (s\<lparr>conversations :=
                 update_first (\<lambda>conv. conv_id conv = conv_id cur) (apply_settings st now)
                   (conversations s)\<rparr>))"

text \<open>
  \<open>length\<close> and \<open>slice\<close> of the language count UTF-16 code units. In the encoding
  used here a character of one, two or three bytes is one unit and a character of four
  bytes is two units, a surrogate pair. \<open>js_length_from\<close> and \<open>js_slice_from\<close> walk
  over the bytes, with the number of bytes still belonging to the character at hand as
  their counter. A slice that ends between the two units of a pair keeps the first of
  them alone; that unit is written as the three bytes of the generalised encoding.
\<close>

definition utf8_width :: "char \<Rightarrow> nat" where
  "utf8_width c =
     (if (of_char c :: nat) < 0x80 then 1
      else if (of_char c :: nat) < 0xE0 then 2
      else if (of_char c :: nat) < 0xF0 then 3
      else 4)"

definition utf16_units :: "char \<Rightarrow> nat" where
  "utf16_units c = (if utf8_width c = 4 then 2 else 1)"

fun js_length_from :: "nat \<Rightarrow> string \<Rightarrow> nat" where
  "js_length_from k [] = 0"
| "js_length_from (Suc k) (c # cs) = js_length_from k cs"
| "js_length_from 0 (c # cs) = utf16_units c + js_length_from (utf8_width c - 1) cs"

definition js_length :: "string \<Rightarrow> nat" where
  "js_length s = js_length_from 0 s"

definition high_surrogate :: "string \<Rightarrow> string" where
  "high_surrogate bs =
     (let b = (\<lambda>i. if i < length bs then (of_char (bs ! i) :: nat) else 0);
          cp = (b 0 mod 8) * 262144 + (b 1 mod 64) * 4096 + (b 2 mod 64) * 64 + b 3 mod 64;
          hs = 0xD800 + (cp - 0x10000) div 1024
      in [CHR 0xED, char_of (0x80 + (hs div 64) mod 64), char_of (0x80 + hs mod 64)])"

fun js_slice_from :: "nat \<Rightarrow> nat \<Rightarrow> string \<Rightarrow> string" where
  "js_slice_from n k [] = []"
| "js_slice_from n (Suc k) (c # cs) = c # js_slice_from n k cs"
| "js_slice_from 0 0 (c # cs) = []"
| "js_slice_from (Suc n) 0 (c # cs) =
     (if utf16_units c = 2
      then (if n = 0 then high_surrogate (c # take 3 cs) else c # js_slice_from (n - 1) 3 cs)
      else c # js_slice_from n (utf8_width c - 1) cs)"

text \<open>\<open>text.slice(0, n)\<close>.\<close>

definition js_slice :: "nat \<Rightarrow> string \<Rightarrow> string" where
  "js_slice n s = js_slice_from n 0 s"

text \<open>
  \<open>addMessage\<close>: \<open>push\<close> onto the conversation found, then the title of a first user
  message, \<open>content.slice(0, 30) + (content.length > 30 ? '...' : '')\<close>.
\<close>

definition push_message :: "message \<Rightarrow> nat \<Rightarrow> conversation \<Rightarrow> conversation" where
  "push_message msg now conv =
     (let ms = messages conv @ [msg]
      in conv\<lparr> messages := ms,
               updatedAt := now,
               title := (if length ms = 1 \<and> role msg = User
                         then js_slice 30 (content msg) @
                              (if 30 < js_length (content msg) then ''...'' else [])
                         else title conv) \<rparr>)"

definition addMessage :: "string \<Rightarrow> message \<Rightarrow> nat \<Rightarrow> store \<Rightarrow> store" where
  "addMessage cid msg now s =
     (case find (\<lambda>conv. conv_id conv = cid) (conversations s) of
        None \<Rightarrow> s
      | Some conv \<Rightarrow>
          saveConversations
            (s\<lparr>conversations :=
                 update_first (\<lambda>conv. conv_id conv = cid) (push_message msg now)
                   (conversations s)\<rparr>))"

definition clearAllConversations :: "store \<Rightarrow> store" where
  "clearAllConversations s =
     saveConversations (s\<lparr>conversations := [], currentConversationId := None\<rparr>)"

definition clearCurrentConversation :: "store \<Rightarrow> store" where
  "clearCurrentConversation s = saveCurrentId None (s\<lparr>currentConversationId := None\<rparr>)"

subsection \<open>\<open>sendMessage\<close>\<close>

definition userMessage :: "string \<Rightarrow> string \<Rightarrow> nat \<Rightarrow> message" where
  "userMessage uid text now =
     \<lparr> msg_id = uid, role = User, content = text, timestamp = now,
       isStreaming = None, displayContent = None \<rparr>"

definition aiMessage :: "string \<Rightarrow> nat \<Rightarrow> message" where
  "aiMessage aid now =
     \<lparr> msg_id = aid, role = Assistant, content = [], timestamp = now,
       isStreaming = Some True, displayContent = Some [] \<rparr>"

text \<open>
  The synchronous start of \<open>sendMessage\<close>, up to the call of \<open>chatAPI.sendMessage\<close>.
  \<open>new_id\<close>, \<open>uid\<close> and \<open>aid\<close> are the results of the three \<open>generateId()\<close> calls and
  \<open>now\<close> that of \<open>Date.now()\<close>. Reading \<open>.id\<close> of a \<open>null\<close> current conversation
  throws; the result carries that error, if any, and the state reached.
\<close>

definition sendMessage_begin ::
  "string \<Rightarrow> string \<Rightarrow> string \<Rightarrow> string \<Rightarrow> nat \<Rightarrow> store \<Rightarrow> js_error option \<times> store" where
  "sendMessage_begin text new_id uid aid now s =
     (let s1 = s\<lparr>isLoading := True\<rparr>;
          s2 = (case currentConversation s1 of
                  None \<Rightarrow> snd (createNewConversation no_settings new_id now s1)
                | Some cur \<Rightarrow> s1)
      in case currentConversation s2 of
           None \<Rightarrow> (Some TypeError, s2)
         | Some cur \<Rightarrow>
             (let s3 = addMessage (conv_id cur) (userMessage uid text now) now s2
              in case currentConversation s3 of
                   None \<Rightarrow> (Some TypeError, s3)
                 | Some cur' \<Rightarrow> (None, addMessage (conv_id cur') (aiMessage aid now) now s3)))"

text \<open>
  The callbacks start with
  \<open>conversations.value.find(conv => conv.id === currentConversation.value!.id)\<close>:
  on a non-empty list the predicate reads \<open>.id\<close> of the current conversation at the time
  of the call, and throws when there is none.
\<close>

definition callback_conversation :: "store \<Rightarrow> js_error + conversation option" where
  "callback_conversation s =
     (if conversations s = [] then Inr None
      else (case currentConversation s of
              None \<Rightarrow> Inl TypeError
            | Some cur \<Rightarrow> Inr (find (\<lambda>conv. conv_id conv = conv_id cur) (conversations s))))"

definition update_message ::
  "string \<Rightarrow> (message \<Rightarrow> bool) \<Rightarrow> (message \<Rightarrow> message) \<Rightarrow> (conversation \<Rightarrow> conversation) \<Rightarrow> store \<Rightarrow> store" where
  "update_message cid P f g s =
     s\<lparr>conversations :=
         update_first (\<lambda>conv. conv_id conv = cid)
           (\<lambda>conv. g (conv\<lparr>messages := update_first P f (messages conv)\<rparr>))
           (conversations s)\<rparr>"

definition append_display :: "string \<Rightarrow> message \<Rightarrow> message" where
  "append_display chunk m =
     m\<lparr>displayContent :=
         Some (case displayContent m of None \<Rightarrow> ''undefined'' @ chunk | Some d \<Rightarrow> d @ chunk)\<rparr>"

definition onChunk_cb :: "string \<Rightarrow> string \<Rightarrow> store \<Rightarrow> js_error + store" where
  "onChunk_cb aid chunk s =
     (case callback_conversation s of
        Inl e \<Rightarrow> Inl e
      | Inr None \<Rightarrow> Inr s
      | Inr (Some conv) \<Rightarrow>
          (case find (\<lambda>m. msg_id m = aid) (messages conv) of
             None \<Rightarrow> Inr s
           | Some m \<Rightarrow>
               Inr (update_message (conv_id conv) (\<lambda>m. msg_id m = aid) (append_display chunk)
                      (\<lambda>conv. conv) s)))"

definition settle_message :: "string \<Rightarrow> message \<Rightarrow> message" where
  "settle_message final m = m\<lparr>content := final, isStreaming := Some False, displayContent := None\<rparr>"

definition onComplete_cb :: "string \<Rightarrow> nat \<Rightarrow> string \<Rightarrow> store \<Rightarrow> js_error + store" where
  "onComplete_cb aid now final s =
     (case callback_conversation s of
        Inl e \<Rightarrow> Inl e
      | Inr None \<Rightarrow> Inr s
      | Inr (Some conv) \<Rightarrow>
          (case find (\<lambda>m. msg_id m = aid) (messages conv) of
             None \<Rightarrow> Inr s
           | Some m \<Rightarrow>
               Inr (saveConversations
                      (update_message (conv_id conv) (\<lambda>m. msg_id m = aid) (settle_message final)
                         (\<lambda>conv. conv\<lparr>updatedAt := now\<rparr>) s))))"

text \<open>
  The error callback and the \<open>catch\<close> block of \<open>sendMessage\<close> have the same body: it
  looks for the first assistant message of the current conversation that is streaming.
\<close>

definition in_flight :: "message \<Rightarrow> bool" where
  "in_flight m = (role m = Assistant \<and> isStreaming m = Some True)"

definition settle_failed :: "nat \<Rightarrow> store \<Rightarrow> js_error + store" where
  "settle_failed now s =
     (case callback_conversation s of
        Inl e \<Rightarrow> Inl e
      | Inr None \<Rightarrow> Inr s
      | Inr (Some conv) \<Rightarrow>
          (case find in_flight (messages conv) of
             None \<Rightarrow> Inr s
           | Some m \<Rightarrow>
               Inr (saveConversations
                      (update_message (conv_id conv) in_flight (settle_message apology)
                         (\<lambda>conv. conv\<lparr>updatedAt := now\<rparr>) s))))"

definition store_callbacks :: "string \<Rightarrow> nat \<Rightarrow> store callbacks" where
  "store_callbacks aid now =
     \<lparr> onChunk = onChunk_cb aid,
       onComplete = onComplete_cb aid now,
       onError = (\<lambda>e. settle_failed now) \<rparr>"

text \<open>The \<open>catch\<close> and \<open>finally\<close> blocks of \<open>sendMessage\<close>.\<close>

definition sendMessage_end :: "nat \<Rightarrow> js_error option \<times> store \<Rightarrow> js_error option \<times> store" where
  "sendMessage_end now r =
     (case r of
        (None, s) \<Rightarrow> (None, s\<lparr>isLoading := False\<rparr>)
      | (Some e, s) \<Rightarrow>
          (case settle_failed now s of
             Inr s' \<Rightarrow> (None, s'\<lparr>isLoading := False\<rparr>)
           | Inl e' \<Rightarrow> (Some e', s\<lparr>isLoading := False\<rparr>)))"

text \<open>A whole \<open>sendMessage\<close> that nothing else interleaves with.\<close>

definition sendMessage ::
  "string \<Rightarrow> string \<Rightarrow> string \<Rightarrow> string \<Rightarrow> nat \<Rightarrow> fetch_result \<Rightarrow> store \<Rightarrow> js_error option \<times> store" where
  "sendMessage text new_id uid aid now fr s =
     sendMessage_end now
       (case sendMessage_begin text new_id uid aid now s of
          (Some e, s1) \<Rightarrow> (Some e, s1)
        | (None, s1) \<Rightarrow> chatAPI_sendMessage (store_callbacks aid now) fr s1)"

subsection \<open>The store as a transition system\<close>

text \<open>
  Between the start of a send and its callbacks the user can act on the store, so the
  callbacks are steps of their own. \<open>Deliver aid now ev\<close> is what \<open>chatAPI.sendMessage\<close>
  and the \<open>catch\<close> block do to the store for one callback event of the send whose
  assistant message is \<open>aid\<close>: a throwing \<open>onChunk\<close> is ignored, a throwing
  \<open>onComplete\<close> leads to the error callback, and a throwing error callback to the
  \<open>catch\<close> block.
\<close>

definition deliver_failure :: "nat \<Rightarrow> store \<Rightarrow> store" where
  "deliver_failure now s =
     (case settle_failed now s of
        Inr s' \<Rightarrow> s'
      | Inl e \<Rightarrow> (case settle_failed now s of Inr s' \<Rightarrow> s' | Inl e' \<Rightarrow> s))"

fun deliver :: "string \<Rightarrow> nat \<Rightarrow> event \<Rightarrow> store \<Rightarrow> store" where
  "deliver aid now (Forwarded chunk) s =
     (case onChunk_cb aid chunk s of Inr s' \<Rightarrow> s' | Inl e \<Rightarrow> s)"
| "deliver aid now (Completed final) s =
     (case onComplete_cb aid now final s of Inr s' \<Rightarrow> s' | Inl e \<Rightarrow> deliver_failure now s)"
| "deliver aid now (Failed e) s = deliver_failure now s"

datatype op =
    LoadConversations
  | SaveConversations
  | CreateNewConversation settings string nat
  | SwitchConversation string
  | DeleteConversation string
  | UpdateConversationTitle string string nat
  | UpdateConversationSettings settings nat
  | AddMessage string message nat
  | SendMessageBegin string string string string nat
  | Deliver string nat event
  | SendMessageFinally
  | ClearAllConversations
  | ClearCurrentConversation
  | StorageWritable bool

fun step :: "op \<Rightarrow> store \<Rightarrow> store" where
  "step LoadConversations s = loadConversations s"
| "step SaveConversations s = saveConversations s"
| "step (CreateNewConversation st new_id now) s = snd (createNewConversation st new_id now s)"
| "step (SwitchConversation cid) s = switchConversation cid s"
| "step (DeleteConversation cid) s = deleteConversation cid s"
| "step (UpdateConversationTitle cid t now) s = updateConversationTitle cid t now s"
| "step (UpdateConversationSettings st now) s = updateConversationSettings st now s"
| "step (AddMessage cid msg now) s = addMessage cid msg now s"
| "step (SendMessageBegin text new_id uid aid now) s = snd (sendMessage_begin text new_id uid aid now s)"
| "step (Deliver aid now ev) s = deliver aid now ev s"
| "step SendMessageFinally s = s\<lparr>isLoading := False\<rparr>"
| "step ClearAllConversations s = clearAllConversations s"
| "step ClearCurrentConversation s = clearCurrentConversation s"
| "step (StorageWritable b) s = s\<lparr>storage_writable := b\<rparr>"

definition run :: "op list \<Rightarrow> store \<Rightarrow> store" where
  "run ops s = fold step ops s"

text \<open>
  The store when it is created: empty refs, then \<open>loadConversations()\<close> on whatever the
  browser's storage holds.
\<close>

definition created :: "conversation list option \<Rightarrow> bool \<Rightarrow> store" where
  "created saved writable =
     loadConversations
       \<lparr> conversations = [], currentConversationId = None, isLoading = False,
         stored_conversations = saved, stored_currentId = None, storage_writable = writable \<rparr>"

section \<open>The send guard of the chat view (components \<open>MainContent\<close> and \<open>ChatInput\<close>)\<close>

text \<open>
  \<open>trim()\<close> leaves the empty string exactly when the text consists of white space. On
  UTF-8 text the white space characters of the language are the six ASCII ones and
  U+00A0, U+1680, U+2000 to U+200A, U+2028, U+2029, U+202F, U+205F, U+3000 and U+FEFF in
  their encodings.
\<close>

definition ascii_space :: "char \<Rightarrow> bool" where
  "ascii_space c = (c \<in> set [CHR 0x09, CHR 0x0A, CHR 0x0B, CHR 0x0C, CHR 0x0D, CHR 0x20])"

definition wide_space :: "char \<Rightarrow> char \<Rightarrow> char \<Rightarrow> bool" where
  "wide_space a b c =
     ((a = CHR 0xE1 \<and> b = CHR 0x9A \<and> c = CHR 0x80) \<or>
      (a = CHR 0xE2 \<and> b = CHR 0x80 \<and>
         ((0x80 \<le> (of_char c :: nat) \<and> (of_char c :: nat) \<le> 0x8A) \<or>
          c \<in> set [CHR 0xA8, CHR 0xA9, CHR 0xAF])) \<or>
      (a = CHR 0xE2 \<and> b = CHR 0x81 \<and> c = CHR 0x9F) \<or>
      (a = CHR 0xE3 \<and> b = CHR 0x80 \<and> c = CHR 0x80) \<or>
      (a = CHR 0xEF \<and> b = CHR 0xBB \<and> c = CHR 0xBF))"

fun blank :: "string \<Rightarrow> bool" where
  "blank [] = True"
| "blank [a] = ascii_space a"
| "blank [a, b] = ((ascii_space a \<and> blank [b]) \<or> (a = CHR 0xC2 \<and> b = CHR 0xA0))"
| "blank (a # b # c # rest) =
     ((ascii_space a \<and> blank (b # c # rest)) \<or>
      (a = CHR 0xC2 \<and> b = CHR 0xA0 \<and> blank (c # rest)) \<or>
      (wide_space a b c \<and> blank rest))"

text \<open>
  \<open>MainContent\<close> keeps its own \<open>isLoading\<close> ref (here \<open>busy\<close>) and the input text.
  \<open>handleSendMessage\<close> returns at once on blank text or while busy; otherwise it sets
  the flag and awaits \<open>conversationStore.sendMessage(content)\<close>. When that settles it
  clears the input (only if the store's promise resolved) and, in \<open>finally\<close>, the flag.
  An error of the store is caught and logged, so the handler's own promise never rejects.
\<close>

record main_content =
  inputText :: string
  busy :: bool

datatype submission = Ignored | Sent string

definition handleSendMessage_begin :: "string \<Rightarrow> main_content \<Rightarrow> submission \<times> main_content" where
  "handleSendMessage_begin text mc =
     (if blank text \<or> busy mc then (Ignored, mc) else (Sent text, mc\<lparr>busy := True\<rparr>))"

definition handleSendMessage_end :: "js_error option \<Rightarrow> main_content \<Rightarrow> js_error option \<times> main_content" where
  "handleSendMessage_end store_rejected mc =
     (case store_rejected of
        None \<Rightarrow> (None, mc\<lparr>inputText := [], busy := False\<rparr>)
      | Some e \<Rightarrow> (None, mc\<lparr>busy := False\<rparr>))"

text \<open>
  One whole call: what the handler's promise rejects with (nothing, always), whether the
  store was called, and the component state afterwards.
\<close>

definition handleSendMessage ::
  "string \<Rightarrow> js_error option \<Rightarrow> main_content \<Rightarrow> js_error option \<times> submission \<times> main_content" where
  "handleSendMessage text store_rejected mc =
     (case handleSendMessage_begin text mc of
        (Ignored, mc') \<Rightarrow> (None, Ignored, mc')
      | (Sent t, mc') \<Rightarrow>
          (case handleSendMessage_end store_rejected mc' of (e, mc'') \<Rightarrow> (e, Sent t, mc'')))"

text \<open>\<open>ChatInput\<close>: the send button is enabled by \<open>canSend\<close>.\<close>

definition canSend :: "string \<Rightarrow> bool \<Rightarrow> bool" where
  "canSend localValue loading = (\<not> blank localValue \<and> \<not> loading)"

section \<open>The supervisor router\<close>




















section \<open>Notions used in the statements\<close>

text \<open>
  What a key of the storage holds for the readers: nothing when the storage is blocked,
  the key is missing, the text is empty or \<open>JSON.parse\<close> rejects it, and the parsed
  value otherwise.
\<close>

definition stored_value :: "(string \<Rightarrow> json option) \<Rightarrow> local_storage \<Rightarrow> string \<Rightarrow> json option" where
  "stored_value parse ls key =
     (case ls of
        Blocked \<Rightarrow> None
      | Items m \<Rightarrow>
          (case m key of
             None \<Rightarrow> None
           | Some data \<Rightarrow> if data = [] then None else parse data))"

definition holds_null :: local_storage where
  "holds_null = Items (\<lambda>key. if key = ''llm_conversations'' then Some ''null'' else None)"

text \<open>
  The assistant message of a send, looked up the way the completion callback does (by
  its id, in the current conversation), its copy in the stored list, and the message the
  error path would pick.
\<close>

definition message_of :: "string \<Rightarrow> store \<Rightarrow> message option" where
  "message_of aid s =
     (case currentConversation s of
        None \<Rightarrow> None
      | Some cur \<Rightarrow> find (\<lambda>m. msg_id m = aid) (messages cur))"

definition persisted_message_of :: "string \<Rightarrow> store \<Rightarrow> message option" where
  "persisted_message_of aid s =
     (case stored_conversations s of
        None \<Rightarrow> None
      | Some saved \<Rightarrow>
          (case currentConversationId s of
             None \<Rightarrow> None
           | Some cid \<Rightarrow>
               (case find (\<lambda>conv. conv_id conv = cid) saved of
                  None \<Rightarrow> None
                | Some conv \<Rightarrow> find (\<lambda>m. msg_id m = aid) (messages conv))))"

definition first_in_flight :: "store \<Rightarrow> message option" where
  "first_in_flight s =
     (case currentConversation s of
        None \<Rightarrow> None
      | Some cur \<Rightarrow> find in_flight (messages cur))"

fun final_text :: "event \<Rightarrow> string" where
  "final_text (Completed final) = final"
| "final_text (Failed e) = apology"
| "final_text (Forwarded chunk) = []"

text \<open>Positions: the ids of a conversation's messages in order, and the ids in use.\<close>

definition message_ids :: "conversation \<Rightarrow> string list" where
  "message_ids conv = map msg_id (messages conv)"

definition conversation_ids :: "store \<Rightarrow> string list" where
  "conversation_ids s = map conv_id (conversations s)"

text \<open>
  One conversation extends another when it has the same id and its message ids start
  with the other's; a list of conversations keeps another when each of its members
  extends a member of the other.
\<close>

definition extends :: "conversation \<Rightarrow> conversation \<Rightarrow> bool" where
  "extends c c' = (conv_id c' = conv_id c \<and> prefix (message_ids c) (message_ids c'))"

definition keeps :: "conversation list \<Rightarrow> conversation list \<Rightarrow> bool" where
  "keeps cs cs' = list_all (\<lambda>c'. list_ex (\<lambda>c. extends c c') cs) cs'"

text \<open>\<open>generateId()\<close> gives a new conversation an id that no conversation has yet.\<close>

fun creates_fresh :: "op \<Rightarrow> store \<Rightarrow> bool" where
  "creates_fresh (CreateNewConversation st new_id now) s = (new_id \<notin> set (conversation_ids s))"
| "creates_fresh (SendMessageBegin text new_id uid aid now) s =
     (if currentConversation s = None then new_id \<notin> set (conversation_ids s) else True)"
| "creates_fresh LoadConversations s = True"
| "creates_fresh SaveConversations s = True"
| "creates_fresh (SwitchConversation cid) s = True"
| "creates_fresh (DeleteConversation cid) s = True"
| "creates_fresh (UpdateConversationTitle cid t now) s = True"
| "creates_fresh (UpdateConversationSettings st now) s = True"
| "creates_fresh (AddMessage cid msg now) s = True"
| "creates_fresh (Deliver aid now ev) s = True"
| "creates_fresh SendMessageFinally s = True"
| "creates_fresh ClearAllConversations s = True"
| "creates_fresh ClearCurrentConversation s = True"
| "creates_fresh (StorageWritable b) s = True"

text \<open>The current id is \<open>null\<close> or names a conversation of the list.\<close>

definition current_valid :: "store \<Rightarrow> bool" where
  "current_valid s =
     (case currentConversationId s of
        None \<Rightarrow> True
      | Some cid \<Rightarrow> cid \<in> set (conversation_ids s))"

text \<open>
  The list in storage agrees with the store when it has the same conversations, in the
  same order, with the same message ids. Where storage holds no list there is nothing
  that \<open>loadConversations\<close> would install. \<open>writes_succeed\<close> says of a sequence of
  steps that none of them makes \<open>localStorage.setItem\<close> fail.
\<close>

definition positions :: "conversation list \<Rightarrow> (string \<times> string list) list" where
  "positions cs = map (\<lambda>c. (conv_id c, message_ids c)) cs"

definition storage_agrees :: "store \<Rightarrow> bool" where
  "storage_agrees s =
     (case stored_conversations s of
        None \<Rightarrow> True
      | Some saved \<Rightarrow> positions saved = positions (conversations s))"

definition writes_succeed :: "op list \<Rightarrow> bool" where
  "writes_succeed ops = list_all (\<lambda>op. op \<noteq> StorageWritable False) ops"

text \<open>
  One list of conversations only appends to another: a conversation of the second list
  with the id of one of the first has that one's message ids as an initial part of its
  own. \<open>appends_throughout\<close> says so of every step of a sequence, and \<open>all_fresh\<close>
  that every step of a sequence that creates a conversation gives it a new id.
\<close>

definition appended :: "conversation list \<Rightarrow> conversation list \<Rightarrow> bool" where
  "appended cs cs' =
     list_all (\<lambda>c. list_all (\<lambda>c'. conv_id c' = conv_id c \<longrightarrow>
                                    prefix (message_ids c) (message_ids c')) cs') cs"

fun appends_throughout :: "op list \<Rightarrow> store \<Rightarrow> bool" where
  "appends_throughout [] s = True"
| "appends_throughout (op # ops) s =
     (appended (conversations s) (conversations (step op s)) \<and>
      appends_throughout ops (step op s))"

fun all_fresh :: "op list \<Rightarrow> store \<Rightarrow> bool" where
  "all_fresh [] s = True"
| "all_fresh (op # ops) s = (creates_fresh op s \<and> all_fresh ops (step op s))"

section \<open>Example runs\<close>

text \<open>
  A fresh store with empty storage on which the user has sent \<open>hi\<close>: one conversation
  \<open>c1\<close> holding the user message \<open>u1\<close> and the streaming assistant message \<open>a1\<close>.
\<close>

definition one_send_in_flight :: store where
  "one_send_in_flight = run [SendMessageBegin ''hi'' ''c1'' ''u1'' ''a1'' 5] (created None True)"

text \<open>
  A store created over a storage that is full and holds, from an earlier visit, one
  conversation \<open>c1\<close> without messages.
\<close>

definition old_conversation :: conversation where
  "old_conversation =
     \<lparr> conv_id = ''c1'', title = ''old'', messages = [], model = ''deepseek-chat'',
       deepThink = False, useSearch = False, createdAt = 1, updatedAt = 1 \<rparr>"

definition created_on_full_storage :: store where
  "created_on_full_storage = created (Some [old_conversation]) False"

text \<open>
  The same send, during which the user opens a new conversation \<open>c2\<close>; then the
  response arrives in one read, the fragment \<open>Hello\<close> and the sentinel, and
  \<open>chatAPI.sendMessage\<close> runs the callbacks of the send on the store as it is by then,
  followed by the \<open>catch\<close> and \<open>finally\<close> blocks of the store's \<open>sendMessage\<close>.
\<close>

definition new_conversation_during_send :: store where
  "new_conversation_during_send =
     run [CreateNewConversation no_settings ''c2'' 6] one_send_in_flight"

definition hello_stream :: fetch_result where
  "hello_stream = Body [Chunk ''data: Hello\<newline>\<newline>data: [DONE]\<newline>\<newline>'']"

definition completed_after_new_conversation :: "js_error option \<times> store" where
  "completed_after_new_conversation =
     sendMessage_end 9
       (chatAPI_sendMessage (store_callbacks ''a1'' 9) hello_stream new_conversation_during_send)"

text \<open>
  Two sends on one conversation that overlap, as the store allows (only the chat view
  holds a second request back): both have started, then the request of the second fails
  with a status that is not ok, then the response of the first arrives.
\<close>

definition two_sends_in_flight :: store where
  "two_sends_in_flight =
     run [SendMessageBegin ''one'' ''c1'' ''u1'' ''a1'' 5,
          SendMessageBegin ''two'' ''c9'' ''u2'' ''a2'' 6] (created None True)"

definition second_send_failed :: store where
  "second_send_failed =
     snd (sendMessage_end 7
            (chatAPI_sendMessage (store_callbacks ''a2'' 7) NotOk two_sends_in_flight))"

definition first_send_completed :: store where
  "first_send_completed =
     snd (sendMessage_end 8
            (chatAPI_sendMessage (store_callbacks ''a1'' 8) hello_stream second_send_failed))"

text \<open>The ids, streaming flags and contents of all messages, conversation by conversation.\<close>

definition overview :: "store \<Rightarrow> (string \<times> (string \<times> bool option \<times> string) list) list" where
  "overview s =
     map (\<lambda>conv. (conv_id conv, map (\<lambda>m. (msg_id m, isStreaming m, content m)) (messages conv)))
       (conversations s)"

text \<open>The same of the list in storage.\<close>

definition stored_overview ::
  "store \<Rightarrow> (string \<times> (string \<times> bool option \<times> string) list) list option" where
  "stored_overview s =
     map_option
       (map (\<lambda>conv. (conv_id conv, map (\<lambda>m. (msg_id m, isStreaming m, content m)) (messages conv))))
       (stored_conversations s)"

section \<open>Properties of the streaming client\<close>

subsection \<open>What the reader forwards\<close>

text \<open>
  With callbacks that only record their calls, one pass over the lines of a chunk either
  meets the sentinel and completes with everything accumulated, or forwards every payload
  of the chunk and carries the accumulated text on.
\<close>

lemma process_lines_recorder:
  "process_lines recorder ls acc tr =
     (if ''[DONE]'' \<in> set (data_payloads ls)
      then (Returned, tr @ map Forwarded (takeWhile (\<lambda>p. p \<noteq> ''[DONE]'') (data_payloads ls))
              @ [Completed (acc @ concat (takeWhile (\<lambda>p. p \<noteq> ''[DONE]'') (data_payloads ls)))])
      else (Continue (acc @ concat (data_payloads ls)), tr @ map Forwarded (data_payloads ls)))"
proof (induction ls arbitrary: acc tr)
  case Nil
  show ?case by (simp add: data_payloads_def)
next
  case (Cons l ls)
  show ?case
  proof (cases "prefix ''data: '' l")
    case False
    then show ?thesis using Cons.IH [of acc tr] by (simp add: data_payloads_def)
  next
    case True
    show ?thesis
    proof (cases "drop 6 l = ''[DONE]''")
      case d: True
      with True show ?thesis by (simp add: data_payloads_def recorder_def)
    next
      case d: False
      with True show ?thesis
        using Cons.IH [of "acc @ drop 6 l" "tr @ [Forwarded (drop 6 l)]"]
        by (simp add: data_payloads_def recorder_def Let_def)
    qed
  qed
qed

lemma read_loop_recorder:
  "read_loop recorder (map Chunk cs) acc tr =
     (Returned,
      tr @ map Forwarded (takeWhile (\<lambda>p. p \<noteq> ''[DONE]'') (seen_fragments cs)) @
      (if ''[DONE]'' \<in> set (seen_fragments cs)
       then [Completed (acc @ concat (takeWhile (\<lambda>p. p \<noteq> ''[DONE]'') (seen_fragments cs)))]
       else []))"
proof (induction cs arbitrary: acc tr)
  case Nil
  show ?case by (simp add: seen_fragments_def)
next
  case (Cons c cs)
  show ?case
  proof (cases "''[DONE]'' \<in> set (data_payloads (split_nl c))")
    case True
    then show ?thesis
      by (simp add: process_lines_recorder seen_fragments_def takeWhile_append1 split: if_splits)
  next
    case False
    have tw: "takeWhile (\<lambda>p. p \<noteq> ''[DONE]'') (data_payloads (split_nl c) @ xs) =
        data_payloads (split_nl c) @ takeWhile (\<lambda>p. p \<noteq> ''[DONE]'') xs" for xs
      using False by (intro takeWhile_append2) auto
    from False show ?thesis
      using Cons.IH [of "acc @ concat (data_payloads (split_nl c))"
          "tr @ map Forwarded (data_payloads (split_nl c))"]
      by (simp add: process_lines_recorder seen_fragments_def tw)
  qed
qed

lemma events_of_chunks:
  "events_of (Body (map Chunk cs)) = delivery (seen_fragments cs)"
  by (simp add: events_of_def chatAPI_sendMessage_def read_loop_recorder delivery_def)

lemma split_nl_not_Nil [simp]: "split_nl s \<noteq> []"
  by (induction s) (auto split: list.splits)

lemma split_nl_line_feed:
  "split_nl (a @ CHR 0x0A # b) = split_nl a @ split_nl b"
proof (induction a)
  case Nil
  show ?case by simp
next
  case (Cons c a)
  then show ?case by (cases "split_nl a") simp_all
qed

lemma data_payloads_append: "data_payloads (xs @ ys) = data_payloads xs @ data_payloads ys"
  by (simp add: data_payloads_def)

lemma data_payloads_empty_line: "data_payloads [[]] = []"
  by (simp add: data_payloads_def)

lemma payloads_split_aligned:
  assumes "line_aligned a"
  shows "data_payloads (split_nl (a @ b)) = data_payloads (split_nl a) @ data_payloads (split_nl b)"
proof (cases "a = []")
  case True
  then show ?thesis by (simp add: data_payloads_empty_line)
next
  case False
  with assms have "last a = CHR 0x0A" by (simp add: line_aligned_def)
  with False obtain a' where a: "a = a' @ [CHR 0x0A]"
    by (metis append_butlast_last_id)
  have "split_nl (a @ b) = split_nl a' @ split_nl b"
    using split_nl_line_feed [of a' b] by (simp add: a)
  moreover have "split_nl a = split_nl a' @ [[]]"
    using split_nl_line_feed [of a' "[]"] by (simp add: a)
  ultimately show ?thesis
    by (simp add: data_payloads_append data_payloads_empty_line)
qed

lemma seen_fragments_aligned:
  "list_all line_aligned cs \<Longrightarrow> seen_fragments cs = stream_fragments cs"
proof (induction cs)
  case Nil
  show ?case by (simp add: seen_fragments_def stream_fragments_def data_payloads_def)
next
  case (Cons c cs)
  then show ?case
    by (simp add: seen_fragments_def stream_fragments_def payloads_split_aligned)
qed

lemma events_of_aligned:
  "list_all line_aligned cs \<Longrightarrow>
     events_of (Body (map Chunk cs)) = delivery (stream_fragments cs)"
  by (simp add: events_of_chunks seen_fragments_aligned)

lemma sentinel_split_across_reads:
  "events_of (Body [Chunk ''data: [DO'', Chunk ''NE]\<newline>\<newline>'']) = [Forwarded ''[DO'']"
  using events_of_chunks [of "[''data: [DO'', ''NE]\<newline>\<newline>'']"]
  by (simp add: seen_fragments_def data_payloads_def delivery_def)

text \<open>
  \<^bold>\<open>Claim C1.\<close> The claim asks that, for every stream, each fragment (the text after a
  \<open>data: \<close> prefix) is forwarded in arrival order and that the first \<open>[DONE]\<close> completes
  with the concatenation of the fragments before it. The reader splits every chunk into
  lines on its own and keeps no unfinished line for the next read, so this holds when
  every chunk ends at a line end (\<open>events_of_aligned\<close>) and fails when a read ends inside
  a line: for the stream \<open>data: Hello\<close>, \<open>[DONE]\<close> delivered as two reads that cut the
  first line after \<open>Hel\<close>, the client forwards \<open>Hel\<close>, drops \<open>lo\<close> and completes with
  \<open>Hel\<close>, where the fragments of the stream call for \<open>Hello\<close>.
\<close>

theorem fragment_split_across_reads_is_truncated:
  "events_of (Body [Chunk ''data: Hel'', Chunk ''lo\<newline>\<newline>data: [DONE]\<newline>\<newline>'']) =
     [Forwarded ''Hel'', Completed ''Hel''] \<and>
   delivery (stream_fragments [''data: Hel'', ''lo\<newline>\<newline>data: [DONE]\<newline>\<newline>'']) =
     [Forwarded ''Hello'', Completed ''Hello'']"
  using events_of_chunks [of "[''data: Hel'', ''lo\<newline>\<newline>data: [DONE]\<newline>\<newline>'']"]
  by (simp add: seen_fragments_def stream_fragments_def data_payloads_def delivery_def)

subsection \<open>Terminal callbacks\<close>

text \<open>
  Every run forwards some payloads and then makes at most one terminal call, which is the
  last call of the run: nothing is forwarded after a completion or a failure.
\<close>

lemma read_loop_shape:
  "\<exists>ps t. snd (read_loop recorder rs acc tr) = tr @ map Forwarded ps @ t \<and>
     ((fst (read_loop recorder rs acc tr) = Returned \<and> (t = [] \<or> (\<exists>c. t = [Completed c]))) \<or>
      (fst (read_loop recorder rs acc tr) = Threw NetworkError \<and> t = []))"
proof (induction rs arbitrary: acc tr)
  case Nil
  show ?case by (rule exI [of _ "[]"]) simp
next
  case (Cons r rs)
  show ?case
  proof (cases r)
    case ReadFailed
    then show ?thesis by (intro exI [of _ "[]"]) simp
  next
    case (Chunk c)
    let ?ps = "data_payloads (split_nl c)"
    show ?thesis
    proof (cases "''[DONE]'' \<in> set ?ps")
      case True
      then show ?thesis using Chunk
        by (intro exI [of _ "takeWhile (\<lambda>p. p \<noteq> ''[DONE]'') ?ps"]
            exI [of _ "[Completed (acc @ concat (takeWhile (\<lambda>p. p \<noteq> ''[DONE]'') ?ps))]"])
          (simp add: process_lines_recorder)
    next
      case False
      obtain qs t where
        s: "snd (read_loop recorder rs (acc @ concat ?ps) (tr @ map Forwarded ?ps)) =
            (tr @ map Forwarded ?ps) @ map Forwarded qs @ t"
        and f: "(fst (read_loop recorder rs (acc @ concat ?ps) (tr @ map Forwarded ?ps)) = Returned \<and>
              (t = [] \<or> (\<exists>c. t = [Completed c]))) \<or>
            (fst (read_loop recorder rs (acc @ concat ?ps) (tr @ map Forwarded ?ps)) = Threw NetworkError \<and> t = [])"
        using Cons.IH [of "acc @ concat ?ps" "tr @ map Forwarded ?ps"] by blast
      show ?thesis
        using False Chunk s f
        by (intro exI [of _ "?ps @ qs"] exI [of _ t]) (simp add: process_lines_recorder)
    qed
  qed
qed

lemma events_of_shape:
  "\<exists>ps t. events_of fr = map Forwarded ps @ t \<and> length t \<le> 1 \<and> list_all is_terminal t"
proof (cases fr)
  case (Body rs)
  obtain ps t where
    s: "snd (read_loop recorder rs [] []) = map Forwarded ps @ t"
    and f: "(fst (read_loop recorder rs [] []) = Returned \<and> (t = [] \<or> (\<exists>c. t = [Completed c]))) \<or>
            (fst (read_loop recorder rs [] []) = Threw NetworkError \<and> t = [])"
    using read_loop_shape [of rs "[]" "[]"] by auto
  from f show ?thesis
  proof
    assume "fst (read_loop recorder rs [] []) = Returned \<and> (t = [] \<or> (\<exists>c. t = [Completed c]))"
    then show ?thesis using Body s
      by (intro exI [of _ ps] exI [of _ t])
        (auto simp: events_of_def chatAPI_sendMessage_def split: prod.splits)
  next
    assume "fst (read_loop recorder rs [] []) = Threw NetworkError \<and> t = []"
    then show ?thesis using Body s
      by (intro exI [of _ ps] exI [of _ "[Failed NetworkError]"])
        (auto simp: events_of_def chatAPI_sendMessage_def recorder_def split: prod.splits)
  qed
next
  case FetchRejected
  then show ?thesis
    by (intro exI [of _ "[]"] exI [of _ "[Failed NetworkError]"])
      (simp add: events_of_def chatAPI_sendMessage_def recorder_def)
next
  case NotOk
  then show ?thesis
    by (intro exI [of _ "[]"] exI [of _ "[Failed HttpError]"])
      (simp add: events_of_def chatAPI_sendMessage_def recorder_def)
next
  case NoBody
  then show ?thesis
    by (intro exI [of _ "[]"] exI [of _ "[Failed NoReader]"])
      (simp add: events_of_def chatAPI_sendMessage_def recorder_def)
qed

lemma nothing_after_terminal:
  assumes "events_of fr = pre @ e # post" and "is_terminal e"
  shows "post = [] \<and> terminal_calls pre = 0"
proof -
  obtain ps t where s: "events_of fr = map Forwarded ps @ t" and l: "length t \<le> 1"
    using events_of_shape by blast
  have nt: "\<not> is_terminal x" if "x \<in> set (map Forwarded ps)" for x
    using that by auto
  from assms(1) s have eq: "pre @ e # post = map Forwarded ps @ t" by simp
  have "e \<in> set (pre @ e # post)" by simp
  with eq have "e \<in> set (map Forwarded ps) \<or> e \<in> set t" by (simp only: set_append Un_iff)
  with nt assms(2) have "e \<in> set t" by blast
  with l have t: "t = [e]" by (cases t) auto
  show ?thesis
  proof (cases post rule: rev_cases)
    case Nil
    with eq t have "pre = map Forwarded ps" by simp
    with Nil show ?thesis by (simp add: terminal_calls_def)
  next
    case (snoc post' x)
    with eq t have "(pre @ e # post') @ [x] = map Forwarded ps @ [e]" by simp
    then have "pre @ e # post' = map Forwarded ps" by (simp only: append1_eq_conv)
    then have "e \<in> set (map Forwarded ps)" by (metis in_set_conv_decomp)
    with nt assms(2) show ?thesis by blast
  qed
qed

text \<open>
  \<^bold>\<open>Claim C7.\<close> The claim asks that a send whose stream has ended reaches exactly one
  terminal call, with nothing forwarded after it. Nothing is ever forwarded after a
  terminal call (\<open>nothing_after_terminal\<close>), and a stream that carries the sentinel or
  fails ends in one. But when the reader reports the end of a stream that never carried
  \<open>[DONE]\<close>, the loop breaks and the function returns: neither \<open>onComplete\<close> nor
  \<open>onError\<close> is called, so the send makes no terminal call at all.
\<close>

theorem stream_end_without_sentinel_never_settles:
  "events_of (Body [Chunk ''data: hi\<newline>\<newline>'']) = [Forwarded ''hi''] \<and>
   terminal_calls (events_of (Body [Chunk ''data: hi\<newline>\<newline>''])) = 0"
  using events_of_chunks [of "[''data: hi\<newline>\<newline>'']"]
  by (simp add: seen_fragments_def data_payloads_def delivery_def terminal_calls_def)

section \<open>Properties of the conversation store\<close>

subsection \<open>Saving and looking up\<close>

lemma saveConversations_fields [simp]:
  "conversations (saveConversations s) = conversations s"
  "currentConversationId (saveConversations s) = currentConversationId s"
  "isLoading (saveConversations s) = isLoading s"
  "storage_writable (saveConversations s) = storage_writable s"
  by (simp_all add: saveConversations_def)

lemma saveCurrentId_fields [simp]:
  "conversations (saveCurrentId v s) = conversations s"
  "currentConversationId (saveCurrentId v s) = currentConversationId s"
  "isLoading (saveCurrentId v s) = isLoading s"
  "storage_writable (saveCurrentId v s) = storage_writable s"
  "stored_conversations (saveCurrentId v s) = stored_conversations s"
  by (simp_all add: saveCurrentId_def)

lemma currentConversation_saveConversations [simp]:
  "currentConversation (saveConversations s) = currentConversation s"
  by (simp add: currentConversation_def split: option.split)

lemma currentConversation_isLoading [simp]:
  "currentConversation (s\<lparr>isLoading := b\<rparr>) = currentConversation s"
  by (simp add: currentConversation_def split: option.split)

lemma find_Some_holds: "find P xs = Some x \<Longrightarrow> P x \<and> x \<in> set xs"
  by (induction xs) (auto split: if_splits)

lemma find_update_first_same:
  assumes "\<And>x. P x \<Longrightarrow> P (f x)"
  shows "find P (update_first P f xs) = map_option f (find P xs)"
  using assms by (induction xs) auto

lemma currentConversation_id:
  "currentConversation s = Some c \<Longrightarrow> currentConversationId s = Some (conv_id c)"
  by (auto simp: currentConversation_def split: option.splits dest: find_Some_holds)

lemma conv_id_push_message [simp]: "conv_id (push_message m now c) = conv_id c"
  by (simp add: push_message_def Let_def)

lemma messages_push_message [simp]: "messages (push_message m now c) = messages c @ [m]"
  by (simp add: push_message_def Let_def)

lemma addMessage_current:
  assumes "currentConversation s = Some c"
  shows "currentConversation (addMessage (conv_id c) m now s) = Some (push_message m now c)"
proof -
  from assms have cid: "currentConversationId s = Some (conv_id c)"
    by (rule currentConversation_id)
  with assms have f: "find (\<lambda>conv. conv_id conv = conv_id c) (conversations s) = Some c"
    by (simp add: currentConversation_def)
  show ?thesis
    by (simp add: addMessage_def f currentConversation_def cid find_update_first_same)
qed

lemma createNewConversation_current:
  "\<exists>c. currentConversation (snd (createNewConversation st new_id now s)) = Some c \<and> messages c = []
     \<and> conv_id c = new_id"
  by (simp add: createNewConversation_def Let_def currentConversation_def)

lemma sendMessage_begin_result:
  "\<exists>cur. sendMessage_begin text new_id uid aid now s =
           (None, addMessage (conv_id cur) (aiMessage aid now) now
                    (addMessage (conv_id cur) (userMessage uid text now) now
                       (case currentConversation s of
                          None \<Rightarrow> snd (createNewConversation no_settings new_id now (s\<lparr>isLoading := True\<rparr>))
                        | Some c \<Rightarrow> s\<lparr>isLoading := True\<rparr>)))
     \<and> currentConversation (case currentConversation s of
                          None \<Rightarrow> snd (createNewConversation no_settings new_id now (s\<lparr>isLoading := True\<rparr>))
                        | Some c \<Rightarrow> s\<lparr>isLoading := True\<rparr>) = Some cur
     \<and> messages cur = (case currentConversation s of None \<Rightarrow> [] | Some c \<Rightarrow> messages c)"
proof (cases "currentConversation s")
  case None
  obtain c where c: "currentConversation (snd (createNewConversation no_settings new_id now (s\<lparr>isLoading := True\<rparr>))) = Some c"
    "messages c = []"
    using createNewConversation_current by blast
  show ?thesis
    using None c addMessage_current [OF c(1)]
    by (simp add: sendMessage_begin_def Let_def)
next
  case (Some c)
  then have c: "currentConversation (s\<lparr>isLoading := True\<rparr>) = Some c" by simp
  show ?thesis
    using Some addMessage_current [OF c]
    by (simp add: sendMessage_begin_def Let_def)
qed

lemma sendMessage_begin_current:
  "fst (sendMessage_begin body new_id uid aid now s) = None \<and>
   (\<exists>cur. currentConversation (snd (sendMessage_begin body new_id uid aid now s)) = Some cur \<and>
      messages cur =
        (case currentConversation s of None \<Rightarrow> [] | Some c \<Rightarrow> messages c) @
        [userMessage uid body now, aiMessage aid now])"
proof -
  let ?base = "case currentConversation s of
      None \<Rightarrow> snd (createNewConversation no_settings new_id now (s\<lparr>isLoading := True\<rparr>))
    | Some c \<Rightarrow> s\<lparr>isLoading := True\<rparr>"
  from sendMessage_begin_result [of body new_id uid aid now s]
  obtain cur where "sendMessage_begin body new_id uid aid now s =
      (None, addMessage (conv_id cur) (aiMessage aid now) now
               (addMessage (conv_id cur) (userMessage uid body now) now ?base)) \<and>
      currentConversation ?base = Some cur \<and>
      messages cur = (case currentConversation s of None \<Rightarrow> [] | Some c \<Rightarrow> messages c)" ..
  then have r: "sendMessage_begin body new_id uid aid now s =
      (None, addMessage (conv_id cur) (aiMessage aid now) now
               (addMessage (conv_id cur) (userMessage uid body now) now ?base))"
    and c: "currentConversation ?base = Some cur"
    and m: "messages cur = (case currentConversation s of None \<Rightarrow> [] | Some c \<Rightarrow> messages c)"
    by simp_all
  have 1: "currentConversation (addMessage (conv_id cur) (userMessage uid body now) now ?base) =
      Some (push_message (userMessage uid body now) now cur)"
    by (rule addMessage_current [OF c])
  have 2: "currentConversation (snd (sendMessage_begin body new_id uid aid now s)) =
      Some (push_message (aiMessage aid now) now (push_message (userMessage uid body now) now cur))"
    using addMessage_current [OF 1] by (simp add: r)
  have 3: "fst (sendMessage_begin body new_id uid aid now s) = None"
    by (simp add: r)
  show ?thesis
    using 2 3 m by simp
qed

subsection \<open>Starting a send\<close>

text \<open>
  \<^bold>\<open>Claim C5.\<close> When a send begins, the conversation it runs on (the current one, or
  a new one when there is none) receives the user message and, right after it, one
  assistant message that is streaming: the start never throws, and the messages of the
  current conversation afterwards are those it had before (none for a new conversation)
  followed by exactly the user message and the streaming assistant message.
\<close>

theorem sendMessage_begin_appends:
  "fst (sendMessage_begin text new_id uid aid now s) = None \<and>
   (case currentConversation (snd (sendMessage_begin text new_id uid aid now s)) of
      None \<Rightarrow> False
    | Some cur \<Rightarrow>
        messages cur =
          (case currentConversation s of None \<Rightarrow> [] | Some c \<Rightarrow> messages c) @
          [userMessage uid text now, aiMessage aid now]) \<and>
   role (userMessage uid text now) = User \<and>
   in_flight (aiMessage aid now) \<and> msg_id (aiMessage aid now) = aid"
proof -
  have "fst (sendMessage_begin text new_id uid aid now s) = None \<and>
      (case currentConversation (snd (sendMessage_begin text new_id uid aid now s)) of
         None \<Rightarrow> False
       | Some cur \<Rightarrow>
           messages cur =
             (case currentConversation s of None \<Rightarrow> [] | Some c \<Rightarrow> messages c) @
             [userMessage uid text now, aiMessage aid now])"
    using sendMessage_begin_current [of "text" new_id uid aid now s] by auto
  moreover have "role (userMessage uid text now) = User \<and>
      in_flight (aiMessage aid now) \<and> msg_id (aiMessage aid now) = aid"
    by (simp add: userMessage_def aiMessage_def in_flight_def)
  ultimately show ?thesis by blast
qed

theorem sendMessage_begin_appends_witness:
  "fst (sendMessage_begin ''hi'' ''c1'' ''u1'' ''a1'' 5 (created None True)) = None \<and>
   map_option (\<lambda>cur. map msg_id (messages cur))
     (currentConversation (snd (sendMessage_begin ''hi'' ''c1'' ''u1'' ''a1'' 5 (created None True)))) =
     Some [''u1'', ''a1'']"
  using sendMessage_begin_appends [of "''hi''" "''c1''" "''u1''" "''a1''" 5 "created None True"]
  by (auto simp: created_def loadConversations_def currentConversation_def userMessage_def
      aiMessage_def split: option.splits)

subsection \<open>Settling a send\<close>

lemma find_update_first_other:
  assumes "find P xs = Some m" and "\<not> Q m" and "\<And>x. P (f x) = P x"
  shows "find P (update_first Q f xs) = Some m"
  using assms by (induction xs) (auto split: if_splits)

lemma find_update_first_both:
  assumes "find P xs = Some m" and "find Q xs = Some m" and "\<And>x. P (f x) = P x"
  shows "find P (update_first Q f xs) = Some (f m)"
  using assms
proof (induction xs)
  case Nil
  then show ?case by simp
next
  case (Cons x xs)
  have pm: "P m" and qm: "Q m"
    using find_Some_holds [OF Cons.prems(1)] find_Some_holds [OF Cons.prems(2)] by simp_all
  show ?case
  proof (cases "Q x")
    case True
    with Cons.prems(2) have "m = x" by simp
    with True pm Cons.prems(3) show ?thesis by simp
  next
    case False
    with qm have "x \<noteq> m" by auto
    with Cons.prems(1) have np: "\<not> P x" by (auto split: if_splits)
    with False Cons show ?thesis by simp
  qed
qed

lemma callback_conversation_current:
  assumes "currentConversation s = Some cur"
  shows "callback_conversation s = Inr (Some cur)"
proof -
  from assms have cid: "currentConversationId s = Some (conv_id cur)"
    by (rule currentConversation_id)
  with assms have f: "find (\<lambda>conv. conv_id conv = conv_id cur) (conversations s) = Some cur"
    by (simp add: currentConversation_def)
  then have "conversations s \<noteq> []" by auto
  with assms f show ?thesis by (simp add: callback_conversation_def)
qed

lemma update_message_fields [simp]:
  "currentConversationId (update_message cid P f g s) = currentConversationId s"
  "stored_conversations (update_message cid P f g s) = stored_conversations s"
  "storage_writable (update_message cid P f g s) = storage_writable s"
  "isLoading (update_message cid P f g s) = isLoading s"
  by (simp_all add: update_message_def)

lemma update_message_current:
  assumes "currentConversation s = Some cur" and "\<And>c. conv_id (g c) = conv_id c"
  shows "currentConversation (update_message (conv_id cur) P f g s) =
           Some (g (cur\<lparr>messages := update_first P f (messages cur)\<rparr>))"
proof -
  from assms(1) have cid: "currentConversationId s = Some (conv_id cur)"
    by (rule currentConversation_id)
  with assms(1) have f: "find (\<lambda>conv. conv_id conv = conv_id cur) (conversations s) = Some cur"
    by (simp add: currentConversation_def)
  show ?thesis
    by (simp add: currentConversation_def update_message_def cid f find_update_first_same assms(2))
qed

lemma msg_id_settle_message [simp]: "msg_id (settle_message t m) = msg_id m"
  by (simp add: settle_message_def)

lemma not_in_flight_settle_message [simp]: "\<not> in_flight (settle_message t m)"
  by (simp add: settle_message_def in_flight_def)

lemma persisted_when_saved:
  "stored_conversations s = Some (conversations s) \<Longrightarrow> persisted_message_of aid s = message_of aid s"
  by (simp add: persisted_message_of_def message_of_def currentConversation_def
      split: option.splits)

lemma persisted_saveConversations:
  "persisted_message_of aid (saveConversations s) =
     (if storage_writable s then message_of aid s else persisted_message_of aid s)"
proof (cases "storage_writable s")
  case True
  then have "stored_conversations (saveConversations s) = Some (conversations (saveConversations s))"
    by (simp add: saveConversations_def)
  then have "persisted_message_of aid (saveConversations s) = message_of aid (saveConversations s)"
    by (rule persisted_when_saved)
  with True show ?thesis by (simp add: message_of_def)
next
  case False
  then show ?thesis by (simp add: saveConversations_def)
qed

lemma message_of_saveConversations [simp]:
  "message_of aid (saveConversations s) = message_of aid s"
  by (simp add: message_of_def)

lemma persisted_update_message [simp]:
  "persisted_message_of aid (update_message cid P f g s) = persisted_message_of aid s"
  by (simp add: persisted_message_of_def split: option.splits)

text \<open>The error path on a state whose message for \<open>aid\<close> is not streaming.\<close>

lemma settle_failed_keeps_settled:
  assumes "message_of aid s = Some m" and "\<not> in_flight m"
    and "storage_writable s \<Longrightarrow> persisted_message_of aid s = message_of aid s"
  shows "\<exists>s'. settle_failed now s = Inr s' \<and> message_of aid s' = Some m \<and>
           persisted_message_of aid s' = persisted_message_of aid s"
proof -
  from assms(1) obtain cur where cur: "currentConversation s = Some cur"
    and m: "find (\<lambda>m. msg_id m = aid) (messages cur) = Some m"
    by (auto simp: message_of_def split: option.splits)
  show ?thesis
  proof (cases "find in_flight (messages cur)")
    case None
    with cur assms(1) show ?thesis
      by (simp add: settle_failed_def callback_conversation_current)
  next
    case (Some x)
    let ?s1 = "update_message (conv_id cur) in_flight (settle_message apology)
                 (\<lambda>conv. conv\<lparr>updatedAt := now\<rparr>) s"
    have r: "settle_failed now s = Inr (saveConversations ?s1)"
      using cur Some by (simp add: settle_failed_def callback_conversation_current)
    have c1: "currentConversation ?s1 =
        Some ((cur\<lparr>messages := update_first in_flight (settle_message apology) (messages cur)\<rparr>)
               \<lparr>updatedAt := now\<rparr>)"
      by (rule update_message_current [OF cur]) simp
    have "find (\<lambda>m. msg_id m = aid) (update_first in_flight (settle_message apology) (messages cur)) = Some m"
      using find_update_first_other [of "\<lambda>m. msg_id m = aid" "messages cur" m in_flight
          "settle_message apology", OF m assms(2)] by simp
    then have m1: "message_of aid ?s1 = Some m"
      by (simp add: message_of_def c1)
    have "persisted_message_of aid (saveConversations ?s1) = persisted_message_of aid s"
      using m1 assms(1,3) by (simp add: persisted_saveConversations)
    with r m1 show ?thesis by simp
  qed
qed

lemma onComplete_cb_settles:
  assumes "message_of aid s = Some m"
  shows "\<exists>s'. onComplete_cb aid now final s = Inr s' \<and>
     message_of aid s' = Some (settle_message final m) \<and>
     persisted_message_of aid s' =
       (if storage_writable s then Some (settle_message final m) else persisted_message_of aid s) \<and>
     storage_writable s' = storage_writable s"
proof -
  from assms obtain cur where cur: "currentConversation s = Some cur"
    and m: "find (\<lambda>m. msg_id m = aid) (messages cur) = Some m"
    by (auto simp: message_of_def split: option.splits)
  let ?s1 = "update_message (conv_id cur) (\<lambda>m. msg_id m = aid) (settle_message final)
               (\<lambda>conv. conv\<lparr>updatedAt := now\<rparr>) s"
  have r: "onComplete_cb aid now final s = Inr (saveConversations ?s1)"
    using cur m by (simp add: onComplete_cb_def callback_conversation_current)
  have c1: "currentConversation ?s1 =
      Some ((cur\<lparr>messages := update_first (\<lambda>m. msg_id m = aid) (settle_message final) (messages cur)\<rparr>)
             \<lparr>updatedAt := now\<rparr>)"
    by (rule update_message_current [OF cur]) simp
  have m1: "message_of aid ?s1 = Some (settle_message final m)"
    by (simp add: message_of_def c1 find_update_first_same m)
  show ?thesis
    using r m1 by (simp add: persisted_saveConversations)
qed

lemma settle_failed_settles:
  assumes "message_of aid s = Some m" and "first_in_flight s = Some m"
  shows "\<exists>s'. settle_failed now s = Inr s' \<and>
     message_of aid s' = Some (settle_message apology m) \<and>
     persisted_message_of aid s' =
       (if storage_writable s then Some (settle_message apology m) else persisted_message_of aid s) \<and>
     storage_writable s' = storage_writable s"
proof -
  from assms obtain cur where cur: "currentConversation s = Some cur"
    and m: "find (\<lambda>m. msg_id m = aid) (messages cur) = Some m"
    and q: "find in_flight (messages cur) = Some m"
    by (auto simp: message_of_def first_in_flight_def split: option.splits)
  let ?s1 = "update_message (conv_id cur) in_flight (settle_message apology)
               (\<lambda>conv. conv\<lparr>updatedAt := now\<rparr>) s"
  have r: "settle_failed now s = Inr (saveConversations ?s1)"
    using cur q by (simp add: settle_failed_def callback_conversation_current)
  have c1: "currentConversation ?s1 =
      Some ((cur\<lparr>messages := update_first in_flight (settle_message apology) (messages cur)\<rparr>)
             \<lparr>updatedAt := now\<rparr>)"
    by (rule update_message_current [OF cur]) simp
  have "find (\<lambda>m. msg_id m = aid) (update_first in_flight (settle_message apology) (messages cur)) =
      Some (settle_message apology m)"
    using find_update_first_both [of "\<lambda>m. msg_id m = aid" "messages cur" m in_flight
        "settle_message apology", OF m q] by simp
  then have m1: "message_of aid ?s1 = Some (settle_message apology m)"
    by (simp add: message_of_def c1)
  show ?thesis
    using r m1 by (simp add: persisted_saveConversations)
qed

lemma deliver_failure_eq:
  "settle_failed now s = Inr s' \<Longrightarrow> deliver_failure now s = s'"
  by (simp add: deliver_failure_def)

lemmas eval_defs = run_def created_def loadConversations_def sendMessage_begin_def
  createNewConversation_def addMessage_def push_message_def saveConversations_def
  currentConversation_def deliver_failure_def settle_failed_def callback_conversation_def
  update_message_def Let_def userMessage_def aiMessage_def no_settings_def onComplete_cb_def
  onChunk_cb_def in_flight_def settle_message_def message_of_def one_send_in_flight_def
  overview_def

text \<open>
  A message that is found in the current conversation is settled by the first terminal
  callback, and a later run of the error path, of whatever send, leaves it as it is:
  the error path only looks at messages that are still streaming.
\<close>

lemma settled_message_survives_failure:
  assumes "message_of aid s = Some m"
    and "ev = Completed final \<or> (ev = Failed e \<and> first_in_flight s = Some m)"
  shows "message_of aid (deliver aid now ev s) = Some (settle_message (final_text ev) m) \<and>
     isStreaming (settle_message (final_text ev) m) = Some False \<and>
     content (settle_message (final_text ev) m) = final_text ev \<and>
     persisted_message_of aid (deliver aid now ev s) =
       (if storage_writable s then Some (settle_message (final_text ev) m)
        else persisted_message_of aid s) \<and>
     message_of aid (deliver aid now' (Failed e') (deliver aid now ev s)) =
       message_of aid (deliver aid now ev s) \<and>
     persisted_message_of aid (deliver aid now' (Failed e') (deliver aid now ev s)) =
       persisted_message_of aid (deliver aid now ev s)"
proof -
  let ?s1 = "deliver aid now ev s"
  have first: "message_of aid ?s1 = Some (settle_message (final_text ev) m) \<and>
     persisted_message_of aid ?s1 =
       (if storage_writable s then Some (settle_message (final_text ev) m)
        else persisted_message_of aid s) \<and>
     storage_writable ?s1 = storage_writable s"
    using assms(2)
  proof
    assume ev: "ev = Completed final"
    obtain s' where "onComplete_cb aid now final s = Inr s'"
      "message_of aid s' = Some (settle_message final m)"
      "persisted_message_of aid s' =
        (if storage_writable s then Some (settle_message final m) else persisted_message_of aid s)"
      "storage_writable s' = storage_writable s"
      using onComplete_cb_settles [OF assms(1)] by blast
    with ev show ?thesis by simp
  next
    assume ev: "ev = Failed e \<and> first_in_flight s = Some m"
    obtain s' where "settle_failed now s = Inr s'"
      "message_of aid s' = Some (settle_message apology m)"
      "persisted_message_of aid s' =
        (if storage_writable s then Some (settle_message apology m) else persisted_message_of aid s)"
      "storage_writable s' = storage_writable s"
      using settle_failed_settles [OF assms(1)] ev by blast
    with ev show ?thesis by (simp add: deliver_failure_eq)
  qed
  then have m1: "message_of aid ?s1 = Some (settle_message (final_text ev) m)"
    and p1: "storage_writable ?s1 \<Longrightarrow> persisted_message_of aid ?s1 = message_of aid ?s1"
    by simp_all
  obtain s2 where "settle_failed now' ?s1 = Inr s2"
    "message_of aid s2 = Some (settle_message (final_text ev) m)"
    "persisted_message_of aid s2 = persisted_message_of aid ?s1"
    using settle_failed_keeps_settled [OF m1 not_in_flight_settle_message p1] by blast
  then have second: "message_of aid (deliver aid now' (Failed e') ?s1) = message_of aid ?s1 \<and>
      persisted_message_of aid (deliver aid now' (Failed e') ?s1) = persisted_message_of aid ?s1"
    using m1 by (simp add: deliver_failure_eq)
  from first second show ?thesis by (simp add: settle_message_def)
qed

text \<open>
  Within one send a further settlement attempt is made only after one that threw: the
  error callback after a throwing completion callback, the \<open>catch\<close> block after a
  throwing error callback. The callbacks throw only where they read the current
  conversation, before they change anything, and the attempt that follows meets the same
  state and throws as well. So no attempt that follows another changes the store.
\<close>

lemma thrown_completion_settles_nothing:
  assumes "onComplete_cb aid now final s = Inl e"
  shows "onError (store_callbacks aid now) e' s = Inl e \<and>
     sendMessage_end now (Some e, s) = (Some e, s\<lparr>isLoading := False\<rparr>)"
proof -
  from assms have "callback_conversation s = Inl e"
    by (simp add: onComplete_cb_def split: sum.splits option.splits)
  then have "settle_failed now s = Inl e"
    by (simp add: settle_failed_def)
  then show ?thesis
    by (simp add: store_callbacks_def sendMessage_end_def)
qed

lemma thrown_failure_settles_nothing:
  assumes "settle_failed now s = Inl e"
  shows "sendMessage_end now (Some e, s) = (Some e, s\<lparr>isLoading := False\<rparr>) \<and>
     deliver_failure now s = s"
  using assms by (simp add: sendMessage_end_def deliver_failure_def)

text \<open>
  Across two overlapping sends the guard is missing. The error path of the second send
  picks the first streaming assistant message of the conversation, which is the message
  of the first send, and settles it with the apology; the completion of the first send
  then finds that message by its id and overwrites the apology. The second send's own
  message is never settled.
\<close>

lemma completion_overwrites_settlement_by_other_send:
  "overview second_send_failed =
     [(''c1'', [(''u1'', None, ''one''), (''a1'', Some False, apology),
               (''u2'', None, ''two''), (''a2'', Some True, [])])] \<and>
   overview first_send_completed =
     [(''c1'', [(''u1'', None, ''one''), (''a1'', Some False, ''Hello''),
               (''u2'', None, ''two''), (''a2'', Some True, [])])] \<and>
   stored_overview first_send_completed = Some (overview first_send_completed)"
  by (simp add: first_send_completed_def second_send_failed_def two_sends_in_flight_def
      hello_stream_def sendMessage_end_def chatAPI_sendMessage_def store_callbacks_def
      stored_overview_def append_display_def eval_defs)

text \<open>
  \<^bold>\<open>Claim C3.\<close> The claim asks that the first settlement of a send turns its
  assistant message into one that is not streaming and holds the final content or an
  error marker, and that every later settlement attempt for the same send changes
  nothing. Within one send the second half holds: the reader makes no call after a
  terminal callback that returned (\<open>events_of_shape\<close>), a further attempt follows only
  one that threw and then changes nothing (\<open>thrown_completion_settles_nothing\<close>,
  \<open>thrown_failure_settles_nothing\<close>), and the error path never touches a message that
  is settled (\<open>settled_message_survives_failure\<close>); the completion callback has no such
  guard, which shows when sends overlap
  (\<open>completion_overwrites_settlement_by_other_send\<close>). The first half fails. The completion
  callback looks for the message in the conversation that is current when the stream
  completes, not in the one the send started in. When the user has opened a new
  conversation in between, the stream \<open>Hello\<close>, \<open>[DONE]\<close> reaches the completion
  callback with the content \<open>Hello\<close>, and this first and only settlement of the send
  changes nothing: the send's message \<open>a1\<close> stays streaming with empty content, in the
  store and in the list in storage.
\<close>

theorem completion_after_new_conversation_settles_nothing:
  "events_of hello_stream = [Forwarded ''Hello'', Completed ''Hello''] \<and>
   fst completed_after_new_conversation = None \<and>
   overview (snd completed_after_new_conversation) =
     [(''c2'', []), (''c1'', [(''u1'', None, ''hi''), (''a1'', Some True, [])])] \<and>
   stored_overview (snd completed_after_new_conversation) =
     Some [(''c2'', []), (''c1'', [(''u1'', None, ''hi''), (''a1'', Some True, [])])]"
proof -
  have "events_of hello_stream = [Forwarded ''Hello'', Completed ''Hello'']"
    using events_of_chunks [of "[''data: Hello\<newline>\<newline>data: [DONE]\<newline>\<newline>'']"]
    by (simp add: hello_stream_def seen_fragments_def data_payloads_def delivery_def)
  moreover have "fst completed_after_new_conversation = None \<and>
      overview (snd completed_after_new_conversation) =
        [(''c2'', []), (''c1'', [(''u1'', None, ''hi''), (''a1'', Some True, [])])] \<and>
      stored_overview (snd completed_after_new_conversation) =
        Some [(''c2'', []), (''c1'', [(''u1'', None, ''hi''), (''a1'', Some True, [])])]"
    by (simp add: completed_after_new_conversation_def new_conversation_during_send_def
        hello_stream_def sendMessage_end_def chatAPI_sendMessage_def store_callbacks_def
        stored_overview_def eval_defs)
  ultimately show ?thesis by simp
qed

lemma apology_not_empty: "apology \<noteq> []"
  by (simp add: apology_def)

lemmas eval_defs3 = eval_defs sendMessage_def sendMessage_end_def chatAPI_sendMessage_def
  store_callbacks_def

text \<open>
  Two sends with nothing interleaved: the stream of the first ends without the sentinel,
  so its message \<open>a1\<close> is left streaming; the second fails, and the error path settles
  \<open>a1\<close>, the first streaming message it finds, while the second send's own message
  \<open>a2\<close> stays streaming.
\<close>

lemma failure_settles_older_streaming_message:
  "overview
     (snd (sendMessage ''again'' ''c9'' ''u2'' ''a2'' 8 NotOk
        (snd (sendMessage ''hi'' ''c1'' ''u1'' ''a1'' 5 (Body [Chunk ''data: x\<newline>\<newline>''])
           (created None True))))) =
     [(''c1'', [(''u1'', None, ''hi''), (''a1'', Some False, apology),
               (''u2'', None, ''again''), (''a2'', Some True, [])])]"
  by (simp add: eval_defs3 append_display_def)

lemma find_append_not_found:
  "find P xs = None \<Longrightarrow> find P (xs @ ys) = find P ys"
  by (induction xs) (auto split: if_splits)

lemma message_of_isLoading [simp]: "message_of aid (s\<lparr>isLoading := b\<rparr>) = message_of aid s"
  by (simp add: message_of_def)

text \<open>
  A send that fails before any chunk arrived, with nothing interleaved, on a current
  conversation that holds no streaming assistant message and no message with the new id,
  ends with its assistant message settled by the apology.
\<close>

lemma failed_send_is_settled:
  assumes "fr = FetchRejected \<or> fr = NotOk \<or> fr = NoBody \<or> (\<exists>rs. fr = Body (ReadFailed # rs))"
    and "first_in_flight s = None" and "message_of aid s = None" and "uid \<noteq> aid"
  shows "fst (sendMessage body new_id uid aid now fr s) = None \<and>
     message_of aid (snd (sendMessage body new_id uid aid now fr s)) =
       Some (settle_message apology (aiMessage aid now))"
proof -
  let ?old = "case currentConversation s of None \<Rightarrow> [] | Some c \<Rightarrow> messages c"
  let ?s1 = "snd (sendMessage_begin body new_id uid aid now s)"
  from sendMessage_begin_current [of body new_id uid aid now s]
  obtain cur where b: "fst (sendMessage_begin body new_id uid aid now s) = None"
    and c: "currentConversation ?s1 = Some cur"
    and m: "messages cur = ?old @ [userMessage uid body now, aiMessage aid now]"
    by blast
  have o1: "find in_flight ?old = None"
    using assms(2) by (simp add: first_in_flight_def split: option.splits)
  have o2: "find (\<lambda>m. msg_id m = aid) ?old = None"
    using assms(3) by (simp add: message_of_def split: option.splits)
  have f: "first_in_flight ?s1 = Some (aiMessage aid now)"
    by (simp add: first_in_flight_def c m find_append_not_found [OF o1])
      (simp add: in_flight_def userMessage_def aiMessage_def)
  have g: "message_of aid ?s1 = Some (aiMessage aid now)"
    using assms(4)
    by (simp add: message_of_def c m find_append_not_found [OF o2])
      (simp add: userMessage_def aiMessage_def)
  obtain s2 where s2: "settle_failed now ?s1 = Inr s2"
    "message_of aid s2 = Some (settle_message apology (aiMessage aid now))"
    using settle_failed_settles [OF g f] by blast
  have api: "chatAPI_sendMessage (store_callbacks aid now) fr ?s1 = (None, s2)"
    using assms(1) s2(1)
    by (auto simp: chatAPI_sendMessage_def store_callbacks_def)
  have "sendMessage body new_id uid aid now fr s = (None, s2\<lparr>isLoading := False\<rparr>)"
    using b api
    by (cases "sendMessage_begin body new_id uid aid now s")
      (simp add: sendMessage_def sendMessage_end_def)
  with s2(2) show ?thesis by simp
qed

text \<open>
  \<^bold>\<open>Claim C6.\<close> The claim asks that a send that fails after its messages were created
  still ends with its assistant message not streaming and holding explanatory text. The
  error path writes the apology, but it looks for the message in the conversation that
  is current when the failure arrives, not in the one the send started in. When the user has opened a new conversation in between, the
  failure settles nothing: the send's message \<open>a1\<close> stays streaming with empty content.
\<close>

theorem failure_after_new_conversation_settles_nothing:
  "overview
     (run [CreateNewConversation no_settings ''c2'' 6, Deliver ''a1'' 7 (Failed HttpError),
           SendMessageFinally] one_send_in_flight) =
     [(''c2'', []), (''c1'', [(''u1'', None, ''hi''), (''a1'', Some True, [])])]"
  by (simp add: eval_defs)

section \<open>Properties of the storage readers\<close>

text \<open>
  \<^bold>\<open>Claim C10\<close>, as stated, has \<open>getConversations\<close> return a list for every state of
  the storage. It returns whatever \<open>JSON.parse\<close> gives for the stored text; for the text
  \<open>null\<close> that is \<open>null\<close>, which is no list.
\<close>

theorem getConversations_not_a_list:
  "getConversations parse_null_only holds_null = Inr JNull \<and> \<not> is_list JNull"
  by (simp add: getConversations_def read_or_def getItem_def JSON_parse_def
      parse_null_only_def holds_null_def CONVERSATIONS_def)

text \<open>
  \<^bold>\<open>Claim C10\<close>, amended. Neither reader ever throws. When the storage is blocked,
  the key is missing, or the stored text is empty or not JSON, \<open>getConversations\<close>
  returns the empty list and \<open>loadFromLocalStorage\<close> returns \<open>null\<close>; otherwise each
  returns the value parsed from the stored text.
\<close>

theorem storage_readers_total:
  "getConversations parse ls =
     Inr (case stored_value parse ls CONVERSATIONS of None \<Rightarrow> JArr [] | Some v \<Rightarrow> v) \<and>
   loadFromLocalStorage parse ls key =
     Inr (case stored_value parse ls key of None \<Rightarrow> JNull | Some v \<Rightarrow> v)"
  by (cases ls)
    (simp_all add: getConversations_def loadFromLocalStorage_def read_or_def getItem_def
      JSON_parse_def stored_value_def split: option.splits)

theorem storage_readers_total_witness:
  "getConversations parse_null_only (Items (\<lambda>key. None)) = Inr (JArr []) \<and>
   loadFromLocalStorage parse_null_only (Items (\<lambda>key. Some ''{oops'')) ''conversations'' = Inr JNull \<and>
   loadFromLocalStorage parse_null_only Blocked ''conversations'' = Inr JNull"
  using storage_readers_total [of parse_null_only "Items (\<lambda>key. None)" "''conversations''"]
    storage_readers_total [of parse_null_only "Items (\<lambda>key. Some ''{oops'')" "''conversations''"]
    storage_readers_total [of parse_null_only Blocked "''conversations''"]
  by (simp add: stored_value_def parse_null_only_def)

section \<open>Properties of the send guard\<close>

text \<open>
  \<^bold>\<open>Claim C2\<close>, as stated, has a request made while another is in flight rejected
  with a typed conflict error and never dropped silently. The handler returns at once
  instead: its promise resolves, the store is not called, and nothing changes.
\<close>

theorem second_request_silently_dropped:
  "handleSendMessage ''hello'' None \<lparr>inputText = ''hello'', busy = True\<rparr> =
     (None, Ignored, \<lparr>inputText = ''hello'', busy = True\<rparr>)"
  by (simp add: handleSendMessage_def handleSendMessage_begin_def)

text \<open>
  \<^bold>\<open>Claim C2\<close>, amended. While a send is in flight, a further request is ignored: the
  handler neither calls the store nor changes any state nor raises an error, and the send
  button is disabled. Once the first send has settled, the flag is cleared and the same
  request, retried, is passed on to the store.
\<close>

theorem busy_guard_ignores:
  assumes "busy mc" and "\<not> blank text"
  shows "handleSendMessage text r mc = (None, Ignored, mc) \<and>
         \<not> canSend text (busy mc) \<and>
         handleSendMessage_begin text (snd (handleSendMessage_end r' mc)) =
           (Sent text, (snd (handleSendMessage_end r' mc))\<lparr>busy := True\<rparr>) \<and>
         \<not> busy (snd (handleSendMessage_end r' mc))"
  using assms
  by (simp add: handleSendMessage_def handleSendMessage_begin_def handleSendMessage_end_def
      canSend_def split: option.splits)

theorem busy_guard_ignores_witness:
  "handleSendMessage ''again'' None \<lparr>inputText = ''again'', busy = True\<rparr> =
     (None, Ignored, \<lparr>inputText = ''again'', busy = True\<rparr>) \<and>
   handleSendMessage_begin ''again''
     (snd (handleSendMessage_end None \<lparr>inputText = ''again'', busy = True\<rparr>)) =
     (Sent ''again'', \<lparr>inputText = [], busy = True\<rparr>)"
proof -
  have b: "busy \<lparr>inputText = ''again'', busy = True\<rparr>" by simp
  have n: "\<not> blank ''again''" by (simp add: ascii_space_def wide_space_def)
  show ?thesis
    using busy_guard_ignores [OF b n, of None None]
    by (simp add: handleSendMessage_end_def)
qed

section \<open>Properties of the store as a transition system\<close>

subsection \<open>What a step does to the conversations\<close>

lemma map_update_first:
  assumes "\<And>x. h (f x) = h x"
  shows "map h (update_first P f xs) = map h xs"
  using assms by (induction xs) auto

lemma set_update_first:
  "c' \<in> set (update_first P f xs) \<Longrightarrow> c' \<in> set xs \<or> (\<exists>x\<in>set xs. c' = f x)"
  by (induction xs) (auto split: if_splits)

lemma set_remove_first: "set (remove_first P xs) \<subseteq> set xs"
  by (induction xs) auto

lemma distinct_map_remove_first:
  "distinct (map h xs) \<Longrightarrow> distinct (map h (remove_first P xs))"
proof (induction xs)
  case Nil
  show ?case by simp
next
  case (Cons x xs)
  then show ?case using set_remove_first [of P xs] by auto
qed

lemma extends_refl [simp]: "extends c c"
  by (simp add: extends_def)

lemma extends_trans: "extends a b \<Longrightarrow> extends b c \<Longrightarrow> extends a c"
  by (auto simp: extends_def intro: prefix_order.trans)

lemma keeps_iff:
  "keeps cs cs' \<longleftrightarrow> (\<forall>c'\<in>set cs'. \<exists>c\<in>set cs. extends c c')"
  by (simp add: keeps_def list_all_iff list_ex_iff)

lemma keeps_refl [simp]: "keeps cs cs"
  unfolding keeps_iff using extends_refl by blast

lemma keeps_trans: "keeps a b \<Longrightarrow> keeps b c \<Longrightarrow> keeps a c"
  unfolding keeps_iff by (meson extends_trans)

lemma keeps_subset: "set cs' \<subseteq> set cs \<Longrightarrow> keeps cs cs'"
  unfolding keeps_iff using extends_refl by blast

lemma keeps_update_first:
  assumes "\<And>c. extends c (f c)"
  shows "keeps cs (update_first P f cs)"
  unfolding keeps_iff
proof
  fix c' assume "c' \<in> set (update_first P f cs)"
  then have "c' \<in> set cs \<or> (\<exists>x\<in>set cs. c' = f x)" by (rule set_update_first)
  then show "\<exists>c\<in>set cs. extends c c'"
    using assms extends_refl by blast
qed

lemma extends_push_message: "extends c (push_message m now c)"
  by (simp add: extends_def message_ids_def)

lemma extends_field_updates:
  "extends c (c\<lparr>title := t, updatedAt := now\<rparr>)"
  "extends c (apply_settings st now c)"
  by (simp_all add: extends_def message_ids_def apply_settings_def)

lemma extends_update_messages:
  assumes "\<And>m. msg_id (f m) = msg_id m"
    and "\<And>c. conv_id (g c) = conv_id c" and "\<And>c. messages (g c) = messages c"
  shows "extends c (g (c\<lparr>messages := update_first P f (messages c)\<rparr>))"
  using assms by (simp add: extends_def message_ids_def map_update_first)

lemma keeps_update_message:
  assumes "\<And>m. msg_id (f m) = msg_id m"
    and "\<And>c. conv_id (g c) = conv_id c" and "\<And>c. messages (g c) = messages c"
  shows "keeps (conversations s) (conversations (update_message cid P f g s))"
  unfolding update_message_def
  using keeps_update_first [of "\<lambda>conv. g (conv\<lparr>messages := update_first P f (messages conv)\<rparr>)"]
    extends_update_messages [OF assms]
  by simp

lemma ids_update_message:
  assumes "\<And>c. conv_id (g c) = conv_id c"
  shows "conversation_ids (update_message cid P f g s) = conversation_ids s"
  by (simp add: update_message_def conversation_ids_def map_update_first assms)

lemma conversation_ids_saveConversations [simp]:
  "conversation_ids (saveConversations s) = conversation_ids s"
  by (simp add: conversation_ids_def)

lemma msg_id_append_display [simp]: "msg_id (append_display chunk m) = msg_id m"
  by (simp add: append_display_def)

text \<open>The callbacks change neither the list of conversation ids nor the current id.\<close>

lemma onChunk_cb_frame:
  "onChunk_cb aid chunk s = Inr s' \<Longrightarrow>
     keeps (conversations s) (conversations s') \<and> conversation_ids s' = conversation_ids s \<and>
     currentConversationId s' = currentConversationId s"
  by (auto simp: onChunk_cb_def keeps_update_message ids_update_message
      split: sum.splits option.splits)

lemma onComplete_cb_frame:
  "onComplete_cb aid now final s = Inr s' \<Longrightarrow>
     keeps (conversations s) (conversations s') \<and> conversation_ids s' = conversation_ids s \<and>
     currentConversationId s' = currentConversationId s"
  by (auto simp: onComplete_cb_def keeps_update_message ids_update_message
      split: sum.splits option.splits)

lemma settle_failed_frame:
  "settle_failed now s = Inr s' \<Longrightarrow>
     keeps (conversations s) (conversations s') \<and> conversation_ids s' = conversation_ids s \<and>
     currentConversationId s' = currentConversationId s"
  by (auto simp: settle_failed_def keeps_update_message ids_update_message
      split: sum.splits option.splits)

lemma deliver_failure_frame:
  "keeps (conversations s) (conversations (deliver_failure now s)) \<and>
   conversation_ids (deliver_failure now s) = conversation_ids s \<and>
   currentConversationId (deliver_failure now s) = currentConversationId s"
  using settle_failed_frame [of now s]
  by (cases "settle_failed now s") (simp_all add: deliver_failure_def)

lemma deliver_frame:
  "keeps (conversations s) (conversations (deliver aid now ev s)) \<and>
   conversation_ids (deliver aid now ev s) = conversation_ids s \<and>
   currentConversationId (deliver aid now ev s) = currentConversationId s"
proof (cases ev)
  case (Forwarded chunk)
  then show ?thesis using onChunk_cb_frame [of aid chunk s]
    by (cases "onChunk_cb aid chunk s") simp_all
next
  case (Completed final)
  then show ?thesis using onComplete_cb_frame [of aid now final s] deliver_failure_frame [of s now]
    by (cases "onComplete_cb aid now final s") simp_all
next
  case (Failed e)
  then show ?thesis using deliver_failure_frame [of s now] by simp
qed

lemma addMessage_frame:
  "keeps (conversations s) (conversations (addMessage cid m now s)) \<and>
   conversation_ids (addMessage cid m now s) = conversation_ids s \<and>
   currentConversationId (addMessage cid m now s) = currentConversationId s"
  by (simp add: addMessage_def conversation_ids_def map_update_first keeps_update_first
      extends_push_message split: option.splits)

lemma in_remove_first: "x \<in> set xs \<Longrightarrow> \<not> P x \<Longrightarrow> x \<in> set (remove_first P xs)"
  by (induction xs) auto

lemma sendMessage_begin_frame:
  "\<exists>base. keeps (conversations base) (conversations (snd (sendMessage_begin body new_id uid aid now s))) \<and>
     conversation_ids (snd (sendMessage_begin body new_id uid aid now s)) = conversation_ids base \<and>
     currentConversationId (snd (sendMessage_begin body new_id uid aid now s)) = currentConversationId base \<and>
     base = (case currentConversation s of
               None \<Rightarrow> snd (createNewConversation no_settings new_id now (s\<lparr>isLoading := True\<rparr>))
             | Some c \<Rightarrow> s\<lparr>isLoading := True\<rparr>)"
proof -
  let ?base = "case currentConversation s of
               None \<Rightarrow> snd (createNewConversation no_settings new_id now (s\<lparr>isLoading := True\<rparr>))
             | Some c \<Rightarrow> s\<lparr>isLoading := True\<rparr>"
  from sendMessage_begin_result [of body new_id uid aid now s]
  obtain cur where "sendMessage_begin body new_id uid aid now s =
      (None, addMessage (conv_id cur) (aiMessage aid now) now
               (addMessage (conv_id cur) (userMessage uid body now) now ?base)) \<and>
      currentConversation ?base = Some cur \<and>
      messages cur = (case currentConversation s of None \<Rightarrow> [] | Some c \<Rightarrow> messages c)" ..
  then have r: "sendMessage_begin body new_id uid aid now s =
      (None, addMessage (conv_id cur) (aiMessage aid now) now
               (addMessage (conv_id cur) (userMessage uid body now) now ?base))"
    by simp
  let ?s3 = "addMessage (conv_id cur) (userMessage uid body now) now ?base"
  have a: "keeps (conversations ?base) (conversations ?s3)"
    "conversation_ids ?s3 = conversation_ids ?base"
    "currentConversationId ?s3 = currentConversationId ?base"
    using addMessage_frame [of ?base "conv_id cur" "userMessage uid body now" now] by simp_all
  have b: "keeps (conversations ?s3) (conversations (addMessage (conv_id cur) (aiMessage aid now) now ?s3))"
    "conversation_ids (addMessage (conv_id cur) (aiMessage aid now) now ?s3) = conversation_ids ?s3"
    "currentConversationId (addMessage (conv_id cur) (aiMessage aid now) now ?s3) = currentConversationId ?s3"
    using addMessage_frame [of ?s3 "conv_id cur" "aiMessage aid now" now] by simp_all
  show ?thesis
    using keeps_trans [OF a(1) b(1)] a(2,3) b(2,3) by (simp add: r)
qed

lemma createNewConversation_conversations:
  "\<exists>new. conversations (snd (createNewConversation st new_id now s)) = new # conversations s \<and>
     conv_id new = new_id \<and> messages new = [] \<and>
     currentConversationId (snd (createNewConversation st new_id now s)) = Some new_id"
  by (simp add: createNewConversation_def Let_def)

lemma deleteConversation_conversations:
  "conversations (deleteConversation cid s) = conversations s \<or>
   conversations (deleteConversation cid s) = remove_first (\<lambda>conv. conv_id conv = cid) (conversations s)"
  by (simp add: deleteConversation_def Let_def split: option.splits list.splits)

lemma origin_same:
  "c' \<in> set (conversations s) \<Longrightarrow>
     (\<exists>c\<in>set (conversations s). extends c c') \<or> conv_id c' \<notin> set (conversation_ids s)"
  using extends_refl by blast

lemma origin_keeps:
  "keeps (conversations s) cs' \<Longrightarrow> c' \<in> set cs' \<Longrightarrow>
     (\<exists>c\<in>set (conversations s). extends c c') \<or> conv_id c' \<notin> set (conversation_ids s)"
  by (auto simp: keeps_iff)

text \<open>
  A reload from a storage that agrees with the store keeps every conversation with its
  message ids.
\<close>

lemma positions_ids: "map fst (positions cs) = map conv_id cs"
  by (simp add: positions_def)

lemma positions_keeps:
  assumes "positions cs' = positions cs"
  shows "keeps cs cs'"
  unfolding keeps_iff
proof
  fix c' assume "c' \<in> set cs'"
  then have "(conv_id c', message_ids c') \<in> set (positions cs')"
    by (auto simp: positions_def)
  with assms obtain c where "c \<in> set cs" "conv_id c' = conv_id c" "message_ids c' = message_ids c"
    by (auto simp: positions_def)
  then show "\<exists>c\<in>set cs. extends c c'"
    by (auto simp: extends_def)
qed

lemma loadConversations_conversations:
  "conversations (loadConversations s) =
     (case stored_conversations s of None \<Rightarrow> conversations s | Some saved \<Rightarrow> saved)"
  by (simp add: loadConversations_def split: option.splits list.splits)

lemma loadConversations_keeps:
  assumes "storage_agrees s"
  shows "keeps (conversations s) (conversations (loadConversations s))"
proof (cases "stored_conversations s")
  case None
  then show ?thesis by (simp add: loadConversations_conversations)
next
  case (Some saved)
  with assms have "positions saved = positions (conversations s)"
    by (simp add: storage_agrees_def)
  then have "keeps (conversations s) saved" by (rule positions_keeps)
  with Some show ?thesis by (simp add: loadConversations_conversations)
qed

lemma loadConversations_ids:
  assumes "storage_agrees s"
  shows "conversation_ids (loadConversations s) = conversation_ids s"
proof (cases "stored_conversations s")
  case None
  then show ?thesis by (simp add: loadConversations_conversations conversation_ids_def)
next
  case (Some saved)
  with assms have "positions saved = positions (conversations s)"
    by (simp add: storage_agrees_def)
  then have "map fst (positions saved) = map fst (positions (conversations s))" by simp
  then have "map conv_id saved = map conv_id (conversations s)"
    by (simp only: positions_ids)
  with Some show ?thesis by (simp add: loadConversations_conversations conversation_ids_def)
qed

lemma step_origin:
  assumes "op = LoadConversations \<Longrightarrow> storage_agrees s" and "creates_fresh op s"
    and "c' \<in> set (conversations (step op s))"
  shows "(\<exists>c\<in>set (conversations s). extends c c') \<or> conv_id c' \<notin> set (conversation_ids s)"
proof (cases op)
  case LoadConversations
  with assms(1) have "keeps (conversations s) (conversations (loadConversations s))"
    by (simp add: loadConversations_keeps)
  with assms(3) LoadConversations show ?thesis
    using origin_keeps [of s "conversations (loadConversations s)" c'] by simp
next
  case SaveConversations
  with assms(3) show ?thesis by (simp add: origin_same)
next
  case (CreateNewConversation st new_id now)
  obtain new where n: "conversations (snd (createNewConversation st new_id now s)) = new # conversations s"
    "conv_id new = new_id"
    using createNewConversation_conversations by blast
  with assms(2,3) CreateNewConversation
  have "conv_id c' \<notin> set (conversation_ids s) \<or> c' \<in> set (conversations s)" by auto
  then show ?thesis using origin_same by blast
next
  case (SwitchConversation cid)
  with assms(3) have "c' \<in> set (conversations s)"
    by (simp add: switchConversation_def split: option.splits)
  then show ?thesis by (rule origin_same)
next
  case (DeleteConversation cid)
  with assms(3) have "c' \<in> set (conversations s)"
    using deleteConversation_conversations [of cid s]
      set_remove_first [of "\<lambda>conv. conv_id conv = cid" "conversations s"]
    by auto
  then show ?thesis by (rule origin_same)
next
  case (UpdateConversationTitle cid t now)
  have "keeps (conversations s) (conversations (updateConversationTitle cid t now s))"
    by (simp add: updateConversationTitle_def keeps_update_first extends_field_updates
        split: option.splits)
  with assms(3) UpdateConversationTitle show ?thesis
    using origin_keeps [of s "conversations (updateConversationTitle cid t now s)" c'] by simp
next
  case (UpdateConversationSettings st now)
  have "keeps (conversations s) (conversations (updateConversationSettings st now s))"
    by (simp add: updateConversationSettings_def keeps_update_first extends_field_updates
        split: option.splits)
  with assms(3) UpdateConversationSettings show ?thesis
    using origin_keeps [of s "conversations (updateConversationSettings st now s)" c'] by simp
next
  case (AddMessage cid msg now)
  then show ?thesis
    using origin_keeps [of s "conversations (addMessage cid msg now s)" c']
      addMessage_frame [of s cid msg now] assms(3) by simp
next
  case (SendMessageBegin body new_id uid aid now)
  let ?base = "case currentConversation s of
               None \<Rightarrow> snd (createNewConversation no_settings new_id now (s\<lparr>isLoading := True\<rparr>))
             | Some c \<Rightarrow> s\<lparr>isLoading := True\<rparr>"
  have k: "keeps (conversations ?base) (conversations (snd (sendMessage_begin body new_id uid aid now s)))"
    using sendMessage_begin_frame [of body new_id uid aid now s] by simp
  with assms(3) SendMessageBegin obtain c2 where c2: "c2 \<in> set (conversations ?base)" "extends c2 c'"
    by (auto simp: keeps_iff)
  show ?thesis
  proof (cases "currentConversation s")
    case None
    obtain new where n: "conversations (snd (createNewConversation no_settings new_id now (s\<lparr>isLoading := True\<rparr>))) =
        new # conversations (s\<lparr>isLoading := True\<rparr>)" "conv_id new = new_id"
      using createNewConversation_conversations by blast
    from None assms(2) SendMessageBegin have fresh: "new_id \<notin> set (conversation_ids s)" by simp
    from c2 None n have "c2 = new \<or> c2 \<in> set (conversations s)" by simp
    then show ?thesis
    proof
      assume "c2 = new"
      with c2(2) n(2) have "conv_id c' = new_id" by (simp add: extends_def)
      with fresh show ?thesis by simp
    next
      assume "c2 \<in> set (conversations s)"
      with c2(2) show ?thesis by blast
    qed
  next
    case (Some c)
    with c2 show ?thesis by auto
  qed
next
  case (Deliver aid now ev)
  then show ?thesis
    using origin_keeps [of s "conversations (deliver aid now ev s)" c']
      deliver_frame [of s aid now ev] assms(3) by simp
next
  case SendMessageFinally
  with assms(3) show ?thesis by (simp add: origin_same)
next
  case ClearAllConversations
  with assms(3) show ?thesis by (simp add: clearAllConversations_def)
next
  case ClearCurrentConversation
  with assms(3) show ?thesis by (simp add: clearCurrentConversation_def origin_same)
next
  case (StorageWritable b)
  with assms(3) show ?thesis by (simp add: origin_same)
qed

lemma step_distinct:
  assumes "op = LoadConversations \<Longrightarrow> storage_agrees s" and "creates_fresh op s"
    and "distinct (conversation_ids s)"
  shows "distinct (conversation_ids (step op s))"
proof (cases op)
  case LoadConversations
  with assms(1,3) show ?thesis by (simp add: loadConversations_ids)
next
  case SaveConversations
  with assms(3) show ?thesis by simp
next
  case (CreateNewConversation st new_id now)
  obtain new where n: "conversations (snd (createNewConversation st new_id now s)) = new # conversations s"
    "conv_id new = new_id"
    using createNewConversation_conversations by blast
  with assms(2,3) CreateNewConversation show ?thesis by (simp add: conversation_ids_def)
next
  case (SwitchConversation cid)
  with assms(3) show ?thesis
    by (simp add: switchConversation_def conversation_ids_def split: option.splits)
next
  case (DeleteConversation cid)
  with assms(3) show ?thesis
    using deleteConversation_conversations [of cid s]
      distinct_map_remove_first [of conv_id "conversations s" "\<lambda>conv. conv_id conv = cid"]
    by (auto simp: conversation_ids_def)
next
  case (UpdateConversationTitle cid t now)
  with assms(3) show ?thesis
    by (simp add: updateConversationTitle_def conversation_ids_def map_update_first
        split: option.splits)
next
  case (UpdateConversationSettings st now)
  with assms(3) show ?thesis
    by (simp add: updateConversationSettings_def conversation_ids_def map_update_first
        apply_settings_def split: option.splits)
next
  case (AddMessage cid msg now)
  with assms(3) show ?thesis using addMessage_frame [of s cid msg now] by simp
next
  case (SendMessageBegin body new_id uid aid now)
  let ?base = "case currentConversation s of
               None \<Rightarrow> snd (createNewConversation no_settings new_id now (s\<lparr>isLoading := True\<rparr>))
             | Some c \<Rightarrow> s\<lparr>isLoading := True\<rparr>"
  have i: "conversation_ids (snd (sendMessage_begin body new_id uid aid now s)) = conversation_ids ?base"
    using sendMessage_begin_frame [of body new_id uid aid now s] by simp
  have "distinct (conversation_ids ?base)"
  proof (cases "currentConversation s")
    case None
    obtain new where n: "conversations (snd (createNewConversation no_settings new_id now (s\<lparr>isLoading := True\<rparr>))) =
        new # conversations (s\<lparr>isLoading := True\<rparr>)" "conv_id new = new_id"
      using createNewConversation_conversations by blast
    from None assms(2) SendMessageBegin have "new_id \<notin> set (conversation_ids s)" by simp
    with None n assms(3) show ?thesis by (simp add: conversation_ids_def)
  next
    case (Some c)
    with assms(3) show ?thesis by (simp add: conversation_ids_def)
  qed
  with i SendMessageBegin show ?thesis by simp
next
  case (Deliver aid now ev)
  with assms(3) show ?thesis using deliver_frame [of s aid now ev] by simp
next
  case SendMessageFinally
  with assms(3) show ?thesis by (simp add: conversation_ids_def)
next
  case ClearAllConversations
  then show ?thesis by (simp add: clearAllConversations_def conversation_ids_def)
next
  case ClearCurrentConversation
  with assms(3) show ?thesis by (simp add: clearCurrentConversation_def conversation_ids_def)
next
  case (StorageWritable b)
  with assms(3) show ?thesis by (simp add: conversation_ids_def)
qed

lemmas eval_defs2 = eval_defs created_on_full_storage_def old_conversation_def
  current_valid_def conversation_ids_def message_ids_def storage_agrees_def positions_def
  no_current_id_def deleteConversation_def

subsection \<open>Storage that agrees with the store\<close>

text \<open>
  Every operation that changes the conversations or the ids of their messages saves the
  list; the chunk callback, which does not save, changes neither. So while writes
  succeed, the list in storage agrees with the store after every step.
\<close>

lemma storage_agrees_saved:
  "storage_writable s \<Longrightarrow> storage_agrees (saveConversations s)"
  by (simp add: saveConversations_def storage_agrees_def)

lemma storage_agrees_same:
  assumes "stored_conversations s' = stored_conversations s"
    and "positions (conversations s') = positions (conversations s)" and "storage_agrees s"
  shows "storage_agrees s'"
  using assms by (simp add: storage_agrees_def split: option.splits)

lemma positions_update_message:
  assumes "\<And>m. msg_id (f m) = msg_id m"
    and "\<And>c. conv_id (g c) = conv_id c" and "\<And>c. messages (g c) = messages c"
  shows "positions (conversations (update_message cid P f g s)) = positions (conversations s)"
  unfolding update_message_def positions_def
  by (simp add: map_update_first message_ids_def assms)

lemma onChunk_cb_agrees:
  assumes "onChunk_cb aid chunk s = Inr s'" and "storage_agrees s"
  shows "storage_agrees s' \<and> storage_writable s' = storage_writable s"
proof -
  from assms(1) have "s' = s \<or>
      (\<exists>cid. s' = update_message cid (\<lambda>m. msg_id m = aid) (append_display chunk) (\<lambda>conv. conv) s)"
    by (auto simp: onChunk_cb_def split: sum.splits option.splits)
  then show ?thesis
  proof
    assume "s' = s"
    with assms(2) show ?thesis by simp
  next
    assume "\<exists>cid. s' = update_message cid (\<lambda>m. msg_id m = aid) (append_display chunk) (\<lambda>conv. conv) s"
    then obtain cid where
      s': "s' = update_message cid (\<lambda>m. msg_id m = aid) (append_display chunk) (\<lambda>conv. conv) s" ..
    have "positions (conversations s') = positions (conversations s)"
      unfolding s' by (rule positions_update_message) simp_all
    with assms(2) show ?thesis
      using storage_agrees_same [of s' s] by (simp add: s')
  qed
qed

lemma onComplete_cb_agrees:
  assumes "onComplete_cb aid now final s = Inr s'" and "storage_writable s" and "storage_agrees s"
  shows "storage_agrees s' \<and> storage_writable s'"
proof -
  from assms(1) have "s' = s \<or> (\<exists>s1. s' = saveConversations s1 \<and> storage_writable s1 = storage_writable s)"
    by (auto simp: onComplete_cb_def split: sum.splits option.splits)
  with assms(2,3) show ?thesis
    by (auto simp: storage_agrees_saved)
qed

lemma settle_failed_agrees:
  assumes "settle_failed now s = Inr s'" and "storage_writable s" and "storage_agrees s"
  shows "storage_agrees s' \<and> storage_writable s'"
proof -
  from assms(1) have "s' = s \<or> (\<exists>s1. s' = saveConversations s1 \<and> storage_writable s1 = storage_writable s)"
    by (auto simp: settle_failed_def split: sum.splits option.splits)
  with assms(2,3) show ?thesis
    by (auto simp: storage_agrees_saved)
qed

lemma deliver_failure_agrees:
  assumes "storage_writable s" and "storage_agrees s"
  shows "storage_agrees (deliver_failure now s) \<and> storage_writable (deliver_failure now s)"
  using settle_failed_agrees [OF _ assms, of now] assms
  by (cases "settle_failed now s") (simp_all add: deliver_failure_def)

lemma deliver_agrees:
  assumes "storage_writable s" and "storage_agrees s"
  shows "storage_agrees (deliver aid now ev s) \<and> storage_writable (deliver aid now ev s)"
proof (cases ev)
  case (Forwarded chunk)
  then show ?thesis
    using onChunk_cb_agrees [OF _ assms(2), of aid chunk] assms
    by (cases "onChunk_cb aid chunk s") simp_all
next
  case (Completed final)
  then show ?thesis
    using onComplete_cb_agrees [OF _ assms, of aid now final] deliver_failure_agrees [OF assms, of now]
    by (cases "onComplete_cb aid now final s") simp_all
next
  case (Failed e)
  then show ?thesis using deliver_failure_agrees [OF assms, of now] by simp
qed

lemma addMessage_agrees:
  assumes "storage_writable s" and "storage_agrees s"
  shows "storage_agrees (addMessage cid m now s) \<and> storage_writable (addMessage cid m now s)"
  using assms
  by (cases "find (\<lambda>conv. conv_id conv = cid) (conversations s)")
    (simp_all add: addMessage_def storage_agrees_saved)

lemma createNewConversation_agrees:
  assumes "storage_writable s"
  shows "storage_agrees (snd (createNewConversation st new_id now s)) \<and>
     storage_writable (snd (createNewConversation st new_id now s))"
  using assms by (simp add: createNewConversation_def Let_def storage_agrees_saved)

lemma sendMessage_begin_agrees:
  assumes "storage_writable s" and "storage_agrees s"
  shows "storage_agrees (snd (sendMessage_begin body new_id uid aid now s)) \<and>
     storage_writable (snd (sendMessage_begin body new_id uid aid now s))"
proof -
  let ?base = "case currentConversation s of
      None \<Rightarrow> snd (createNewConversation no_settings new_id now (s\<lparr>isLoading := True\<rparr>))
    | Some c \<Rightarrow> s\<lparr>isLoading := True\<rparr>"
  from sendMessage_begin_result [of body new_id uid aid now s]
  obtain cur where "sendMessage_begin body new_id uid aid now s =
      (None, addMessage (conv_id cur) (aiMessage aid now) now
               (addMessage (conv_id cur) (userMessage uid body now) now ?base)) \<and>
      currentConversation ?base = Some cur \<and>
      messages cur = (case currentConversation s of None \<Rightarrow> [] | Some c \<Rightarrow> messages c)" ..
  then have r: "snd (sendMessage_begin body new_id uid aid now s) =
      addMessage (conv_id cur) (aiMessage aid now) now
        (addMessage (conv_id cur) (userMessage uid body now) now ?base)"
    by simp
  have w: "storage_writable (s\<lparr>isLoading := True\<rparr>)" using assms(1) by simp
  have "storage_agrees (s\<lparr>isLoading := True\<rparr>)"
    using assms(2) by (simp add: storage_agrees_def split: option.splits)
  with w have "storage_agrees ?base \<and> storage_writable ?base"
    using createNewConversation_agrees [OF w, of no_settings new_id now]
    by (cases "currentConversation s") simp_all
  then have "storage_agrees (addMessage (conv_id cur) (userMessage uid body now) now ?base) \<and>
      storage_writable (addMessage (conv_id cur) (userMessage uid body now) now ?base)"
    by (intro addMessage_agrees) simp_all
  then have "storage_agrees (addMessage (conv_id cur) (aiMessage aid now) now
        (addMessage (conv_id cur) (userMessage uid body now) now ?base)) \<and>
      storage_writable (addMessage (conv_id cur) (aiMessage aid now) now
        (addMessage (conv_id cur) (userMessage uid body now) now ?base))"
    by (intro addMessage_agrees) simp_all
  then show ?thesis by (simp only: r)
qed

lemma loadConversations_agrees:
  "storage_agrees (loadConversations s) \<and>
   storage_writable (loadConversations s) = storage_writable s"
  by (simp add: loadConversations_def storage_agrees_def split: option.splits list.splits)

lemma step_agrees:
  assumes "storage_writable s" and "storage_agrees s" and "op \<noteq> StorageWritable False"
  shows "storage_agrees (step op s) \<and> storage_writable (step op s)"
proof (cases op)
  case LoadConversations
  with assms(1) show ?thesis using loadConversations_agrees [of s] by simp
next
  case SaveConversations
  with assms(1) show ?thesis by (simp add: storage_agrees_saved)
next
  case (CreateNewConversation st new_id now)
  with assms(1) show ?thesis by (simp add: createNewConversation_agrees)
next
  case (SwitchConversation cid)
  with assms(1,2) show ?thesis
    by (simp add: switchConversation_def storage_agrees_def split: option.splits)
next
  case (DeleteConversation cid)
  with assms(1,2) show ?thesis
    by (cases "find (\<lambda>conv. conv_id conv = cid) (conversations s)")
      (simp_all add: deleteConversation_def Let_def storage_agrees_saved split: list.splits)
next
  case (UpdateConversationTitle cid t now)
  with assms(1,2) show ?thesis
    by (cases "find (\<lambda>conv. conv_id conv = cid) (conversations s)")
      (simp_all add: updateConversationTitle_def storage_agrees_saved)
next
  case (UpdateConversationSettings st now)
  with assms(1,2) show ?thesis
    by (cases "currentConversation s")
      (simp_all add: updateConversationSettings_def storage_agrees_saved)
next
  case (AddMessage cid msg now)
  with assms(1,2) show ?thesis by (simp add: addMessage_agrees)
next
  case (SendMessageBegin body new_id uid aid now)
  with assms(1,2) show ?thesis by (simp add: sendMessage_begin_agrees)
next
  case (Deliver aid now ev)
  with assms(1,2) show ?thesis by (simp add: deliver_agrees)
next
  case SendMessageFinally
  with assms(1,2) show ?thesis by (simp add: storage_agrees_def split: option.splits)
next
  case ClearAllConversations
  with assms(1) show ?thesis by (simp add: clearAllConversations_def storage_agrees_saved)
next
  case ClearCurrentConversation
  with assms(1,2) show ?thesis
    by (simp add: clearCurrentConversation_def storage_agrees_def split: option.splits)
next
  case (StorageWritable b)
  with assms show ?thesis by (simp add: storage_agrees_def split: option.splits)
qed

lemma created_agrees: "storage_agrees (created saved writable)"
  unfolding created_def using loadConversations_agrees by blast

lemma run_Cons: "run (op # ops) s = run ops (step op s)"
  by (simp add: run_def)

lemma run_agrees:
  "storage_writable s \<Longrightarrow> storage_agrees s \<Longrightarrow> writes_succeed ops \<Longrightarrow>
     storage_agrees (run ops s) \<and> storage_writable (run ops s)"
proof (induction ops arbitrary: s)
  case Nil
  then show ?case by (simp add: run_def)
next
  case (Cons op ops)
  from Cons.prems have "storage_agrees (step op s) \<and> storage_writable (step op s)"
    by (intro step_agrees) (simp_all add: writes_succeed_def)
  with Cons.prems(3) have "storage_agrees (run ops (step op s)) \<and> storage_writable (run ops (step op s))"
    by (intro Cons.IH) (simp_all add: writes_succeed_def)
  then show ?case by (simp only: run_Cons)
qed

subsection \<open>Positions of messages\<close>

lemma appended_iff:
  "appended cs cs' \<longleftrightarrow>
     (\<forall>c\<in>set cs. \<forall>c'\<in>set cs'. conv_id c' = conv_id c \<longrightarrow> prefix (message_ids c) (message_ids c'))"
  by (simp add: appended_def list_all_iff)

lemma step_appended:
  assumes "distinct (conversation_ids s)" and "creates_fresh op s"
    and "op = LoadConversations \<Longrightarrow> storage_agrees s"
  shows "appended (conversations s) (conversations (step op s))"
  unfolding appended_iff
proof (intro ballI impI)
  fix c c'
  assume c: "c \<in> set (conversations s)" and c': "c' \<in> set (conversations (step op s))"
    and eq: "conv_id c' = conv_id c"
  from c eq have "conv_id c' \<in> set (conversation_ids s)"
    by (auto simp: conversation_ids_def)
  with step_origin [OF assms(3,2) c'] obtain c0
    where c0: "c0 \<in> set (conversations s)" "extends c0 c'"
    by blast
  then have "conv_id c0 = conv_id c" using eq by (simp add: extends_def)
  with assms(1) c c0(1) have "c0 = c"
    by (metis conversation_ids_def distinct_map inj_on_eq_iff)
  with c0(2) show "prefix (message_ids c) (message_ids c')" by (simp add: extends_def)
qed

lemma run_appends:
  "storage_writable s \<Longrightarrow> storage_agrees s \<Longrightarrow> distinct (conversation_ids s) \<Longrightarrow>
     all_fresh ops s \<Longrightarrow> writes_succeed ops \<Longrightarrow> appends_throughout ops s"
proof (induction ops arbitrary: s)
  case Nil
  show ?case by simp
next
  case (Cons op ops)
  from Cons.prems have f: "creates_fresh op s" and fs: "all_fresh ops (step op s)"
    and w: "op \<noteq> StorageWritable False" and ws: "writes_succeed ops"
    by (simp_all add: writes_succeed_def)
  have a: "appended (conversations s) (conversations (step op s))"
    using Cons.prems(3) f Cons.prems(2) by (rule step_appended)
  have d: "distinct (conversation_ids (step op s))"
    using Cons.prems(2) f Cons.prems(3) by (intro step_distinct)
  have g: "storage_agrees (step op s) \<and> storage_writable (step op s)"
    using Cons.prems(1,2) w by (rule step_agrees)
  have "appends_throughout ops (step op s)"
    using g d fs ws by (intro Cons.IH) simp_all
  with a show ?case by simp
qed

text \<open>
  \<^bold>\<open>Claim C4\<close>, as stated, holds for every sequence of store operations.
  \<open>loadConversations\<close> replaces the whole list by the one in storage, and that one is
  older whenever a save has failed (\<open>saveToLocalStorage\<close> only logs the error). On a
  store created over a full storage, a message is added and is gone after a reload.
\<close>

theorem reload_drops_unsaved_message:
  "map message_ids
     (conversations (run [AddMessage ''c1'' (userMessage ''u1'' ''hi'' 6) 6] created_on_full_storage)) =
     [[''u1'']] \<and>
   map message_ids
     (conversations
        (run [AddMessage ''c1'' (userMessage ''u1'' ''hi'' 6) 6, LoadConversations]
           created_on_full_storage)) =
     [[]]"
  by (simp add: eval_defs2)

text \<open>
  \<^bold>\<open>Claim C4\<close>, amended. With conversation ids that are distinct and a fresh id for
  every new conversation, every operation only appends: for a conversation present
  before and after the step, the message ids before the step are an initial part of
  those after it, so every message keeps its position and new messages come at the end;
  the ids stay distinct. For \<open>loadConversations\<close> this needs the list in storage to
  agree with the store. It does when the store is created, and every operation keeps it
  so as long as the writes to storage succeed. Hence on a storage that takes every write
  the messages are only appended along every sequence of operations, reloads included.
\<close>

theorem messages_only_appended:
  "(distinct (conversation_ids s) \<and> creates_fresh op s \<and>
    (op = LoadConversations \<longrightarrow> storage_agrees s) \<and>
    c \<in> set (conversations s) \<and> c' \<in> set (conversations (step op s)) \<and> conv_id c' = conv_id c
      \<longrightarrow> prefix (message_ids c) (message_ids c') \<and> distinct (conversation_ids (step op s))) \<and>
   storage_agrees (created saved writable) \<and>
   (storage_writable s \<and> storage_agrees s \<and> op \<noteq> StorageWritable False
      \<longrightarrow> storage_agrees (step op s) \<and> storage_writable (step op s)) \<and>
   (storage_writable s \<and> storage_agrees s \<and> distinct (conversation_ids s) \<and>
    all_fresh ops s \<and> writes_succeed ops
      \<longrightarrow> appends_throughout ops s)"
proof (intro conjI impI)
  assume h: "distinct (conversation_ids s) \<and> creates_fresh op s \<and>
    (op = LoadConversations \<longrightarrow> storage_agrees s) \<and>
    c \<in> set (conversations s) \<and> c' \<in> set (conversations (step op s)) \<and> conv_id c' = conv_id c"
  then have "appended (conversations s) (conversations (step op s))"
    by (intro step_appended) simp_all
  with h show "prefix (message_ids c) (message_ids c')"
    by (simp add: appended_iff)
  from h show "distinct (conversation_ids (step op s))"
    by (intro step_distinct) simp_all
next
  show "storage_agrees (created saved writable)" by (rule created_agrees)
next
  assume h: "storage_writable s \<and> storage_agrees s \<and> op \<noteq> StorageWritable False"
  then have "storage_agrees (step op s) \<and> storage_writable (step op s)"
    by (intro step_agrees) simp_all
  then show "storage_agrees (step op s)" and "storage_writable (step op s)" by simp_all
next
  assume "storage_writable s \<and> storage_agrees s \<and> distinct (conversation_ids s) \<and>
    all_fresh ops s \<and> writes_succeed ops"
  then show "appends_throughout ops s"
    by (intro run_appends) simp_all
qed

theorem messages_only_appended_witness:
  "appends_throughout [AddMessage ''c1'' (userMessage ''u2'' ''more'' 6) 6, LoadConversations]
     one_send_in_flight \<and>
   map message_ids
     (conversations
        (run [AddMessage ''c1'' (userMessage ''u2'' ''more'' 6) 6, LoadConversations]
           one_send_in_flight)) =
     [[''u1'', ''a1'', ''u2'']] \<and>
   storage_agrees (step (AddMessage ''c1'' (userMessage ''u2'' ''more'' 6) 6) one_send_in_flight)"
proof -
  let ?add = "AddMessage ''c1'' (userMessage ''u2'' ''more'' 6) 6"
  have 1: "storage_writable one_send_in_flight \<and> storage_agrees one_send_in_flight \<and>
      distinct (conversation_ids one_send_in_flight) \<and>
      all_fresh [?add, LoadConversations] one_send_in_flight \<and>
      writes_succeed [?add, LoadConversations]"
    by (simp add: eval_defs2 writes_succeed_def)
  have 2: "storage_writable one_send_in_flight \<and> storage_agrees one_send_in_flight \<and>
      ?add \<noteq> StorageWritable False"
    by (simp add: eval_defs2)
  have 3: "map message_ids (conversations (run [?add, LoadConversations] one_send_in_flight)) =
      [[''u1'', ''a1'', ''u2'']]"
    by (simp add: eval_defs2)
  show ?thesis
    using messages_only_appended [of one_send_in_flight ?add _ _ None True "[?add, LoadConversations]"]
      1 2 3
    by blast
qed

subsection \<open>The current conversation id\<close>

lemma current_valid_iff:
  "current_valid s \<longleftrightarrow>
     (\<forall>cid. currentConversationId s = Some cid \<longrightarrow> cid \<in> set (conversation_ids s))"
  by (simp add: current_valid_def split: option.splits)

lemma current_valid_same:
  assumes "conversation_ids s' = conversation_ids s"
    and "currentConversationId s' = currentConversationId s" and "current_valid s"
  shows "current_valid s'"
  using assms by (simp add: current_valid_iff)

lemma createNewConversation_valid:
  "current_valid (snd (createNewConversation st new_id now s))"
  by (simp add: createNewConversation_def Let_def current_valid_iff conversation_ids_def)

lemma deleteConversation_current:
  assumes "find (\<lambda>conv. conv_id conv = cid) (conversations s) = Some conv"
  shows "conversations (deleteConversation cid s) =
           remove_first (\<lambda>conv. conv_id conv = cid) (conversations s) \<and>
         currentConversationId (deleteConversation cid s) =
           (if currentConversationId s = Some cid
            then (case conversations (deleteConversation cid s) of
                    [] \<Rightarrow> None
                  | first # rest \<Rightarrow> Some (conv_id first))
            else currentConversationId s)"
  using assms by (simp add: deleteConversation_def Let_def split: list.splits)

lemma find_None_iff_ids: "find (\<lambda>conv. conv_id conv = cid) cs = None \<longleftrightarrow> cid \<notin> set (map conv_id cs)"
  by (induction cs) auto

lemma deleteConversation_valid:
  assumes "current_valid s"
  shows "current_valid (deleteConversation cid s)"
proof (cases "find (\<lambda>conv. conv_id conv = cid) (conversations s)")
  case None
  with assms show ?thesis by (simp add: deleteConversation_def)
next
  case (Some conv)
  note d = deleteConversation_current [OF Some]
  show ?thesis
  proof (cases "currentConversationId s = Some cid")
    case True
    with d [THEN conjunct2] show ?thesis
      by (cases "conversations (deleteConversation cid s)")
        (simp_all add: current_valid_iff conversation_ids_def)
  next
    case False
    show ?thesis
    proof (cases "currentConversationId s")
      case None
      with d False show ?thesis by (simp add: current_valid_iff)
    next
      case (Some cur)
      with assms obtain c where c: "c \<in> set (conversations s)" "conv_id c = cur"
        by (auto simp: current_valid_iff conversation_ids_def)
      with False Some have "c \<in> set (remove_first (\<lambda>conv. conv_id conv = cid) (conversations s))"
        by (intro in_remove_first) auto
      with d False Some c(2) show ?thesis
        by (auto simp: current_valid_iff conversation_ids_def)
    qed
  qed
qed

lemma loadConversations_current:
  "currentConversationId (loadConversations s) =
     (case stored_conversations s of
        None \<Rightarrow> currentConversationId s
      | Some [] \<Rightarrow> currentConversationId s
      | Some (first # rest) \<Rightarrow>
          if no_current_id s then Some (conv_id first) else currentConversationId s)"
  by (simp add: loadConversations_def split: option.splits list.splits)

lemma loadConversations_valid:
  assumes "storage_agrees s" and "current_valid s"
  shows "current_valid (loadConversations s)"
proof -
  have ids: "conversation_ids (loadConversations s) = conversation_ids s"
    using assms(1) by (rule loadConversations_ids)
  show ?thesis
  proof (cases "currentConversationId (loadConversations s) = currentConversationId s")
    case True
    with ids assms(2) show ?thesis by (simp add: current_valid_same)
  next
    case False
    then obtain first rest where st: "stored_conversations s = Some (first # rest)"
      and cur: "currentConversationId (loadConversations s) = Some (conv_id first)"
      by (auto simp: loadConversations_current split: option.splits list.splits if_splits)
    from st have "conversations (loadConversations s) = first # rest"
      by (simp add: loadConversations_conversations)
    with cur show ?thesis by (simp add: current_valid_iff conversation_ids_def)
  qed
qed

lemma created_valid: "current_valid (created saved writable)"
  by (auto simp: created_def loadConversations_def current_valid_iff conversation_ids_def
      no_current_id_def split: option.splits list.splits)

lemma update_frames:
  "conversation_ids (updateConversationTitle cid t now s) = conversation_ids s \<and>
   currentConversationId (updateConversationTitle cid t now s) = currentConversationId s"
  "conversation_ids (updateConversationSettings st now s) = conversation_ids s \<and>
   currentConversationId (updateConversationSettings st now s) = currentConversationId s"
  by (simp_all add: updateConversationTitle_def updateConversationSettings_def
      conversation_ids_def map_update_first apply_settings_def split: option.splits)

text \<open>
  Every operation keeps the current id valid, \<open>loadConversations\<close> when the list in
  storage agrees with the store.
\<close>

lemma step_valid:
  assumes "current_valid s"
    and "op = LoadConversations \<Longrightarrow> storage_agrees s"
  shows "current_valid (step op s)"
proof (cases op)
  case LoadConversations
  with assms show ?thesis by (simp add: loadConversations_valid)
next
  case SaveConversations
  with assms(1) show ?thesis by (simp add: current_valid_iff)
next
  case (CreateNewConversation st new_id now)
  then show ?thesis by (simp add: createNewConversation_valid)
next
  case (SwitchConversation cid)
  show ?thesis
  proof (cases "find (\<lambda>conv. conv_id conv = cid) (conversations s)")
    case None
    with assms(1) SwitchConversation show ?thesis by (simp add: switchConversation_def)
  next
    case (Some conv)
    then have "cid \<in> set (map conv_id (conversations s))"
      using find_None_iff_ids [of cid "conversations s"] by simp
    with Some SwitchConversation show ?thesis
      by (simp add: switchConversation_def current_valid_iff conversation_ids_def)
  qed
next
  case (DeleteConversation cid)
  with assms(1) show ?thesis by (simp add: deleteConversation_valid)
next
  case (UpdateConversationTitle cid t now)
  with assms(1) show ?thesis
    using update_frames(1) [of cid t now s] by (simp add: current_valid_same)
next
  case (UpdateConversationSettings st now)
  with assms(1) show ?thesis
    using update_frames(2) [of st now s] by (simp add: current_valid_same)
next
  case (AddMessage cid msg now)
  with assms(1) show ?thesis
    using addMessage_frame [of s cid msg now] by (simp add: current_valid_same)
next
  case (SendMessageBegin body new_id uid aid now)
  let ?base = "case currentConversation s of
               None \<Rightarrow> snd (createNewConversation no_settings new_id now (s\<lparr>isLoading := True\<rparr>))
             | Some c \<Rightarrow> s\<lparr>isLoading := True\<rparr>"
  have "current_valid ?base"
    using assms(1)
    by (cases "currentConversation s")
      (simp_all add: createNewConversation_valid, simp add: current_valid_iff conversation_ids_def)
  then show ?thesis
    using SendMessageBegin sendMessage_begin_frame [of body new_id uid aid now s]
    by (simp add: current_valid_same)
next
  case (Deliver aid now ev)
  with assms(1) show ?thesis
    using deliver_frame [of s aid now ev] by (simp add: current_valid_same)
next
  case SendMessageFinally
  with assms(1) show ?thesis by (simp add: current_valid_iff conversation_ids_def)
next
  case ClearAllConversations
  then show ?thesis by (simp add: clearAllConversations_def current_valid_iff)
next
  case ClearCurrentConversation
  then show ?thesis by (simp add: clearCurrentConversation_def current_valid_iff)
next
  case (StorageWritable b)
  with assms(1) show ?thesis by (simp add: current_valid_iff conversation_ids_def)
qed

text \<open>
  On a storage that takes every write the current id is valid in every state that a
  sequence of operations reaches, reloads included.
\<close>

lemma run_valid:
  "storage_writable s \<Longrightarrow> storage_agrees s \<Longrightarrow> current_valid s \<Longrightarrow> writes_succeed ops \<Longrightarrow>
     current_valid (run ops s)"
proof (induction ops arbitrary: s)
  case Nil
  then show ?case by (simp add: run_def)
next
  case (Cons op ops)
  from Cons.prems have w: "op \<noteq> StorageWritable False" and ws: "writes_succeed ops"
    by (simp_all add: writes_succeed_def)
  have v: "current_valid (step op s)"
    using Cons.prems(3,2) by (intro step_valid)
  have g: "storage_agrees (step op s) \<and> storage_writable (step op s)"
    using Cons.prems(1,2) w by (rule step_agrees)
  have "current_valid (run ops (step op s))"
    using g v ws by (intro Cons.IH) simp_all
  then show ?case by (simp only: run_Cons)
qed

lemma current_valid_while_writes_succeed:
  "writes_succeed ops \<Longrightarrow> current_valid (run ops (created saved True))"
proof -
  have "storage_writable (created saved True)"
    using loadConversations_agrees by (simp add: created_def)
  then show "writes_succeed ops \<Longrightarrow> current_valid (run ops (created saved True))"
    using created_agrees created_valid by (intro run_valid)
qed

text \<open>Deleting the current conversation makes the first remaining one current, or none.\<close>

lemma deleteConversation_repoints:
  assumes "currentConversationId s = Some cid" and "cid \<in> set (conversation_ids s)"
  shows "currentConversationId (deleteConversation cid s) =
           (case conversations (deleteConversation cid s) of
              [] \<Rightarrow> None
            | first # rest \<Rightarrow> Some (conv_id first))"
proof -
  from assms(2) obtain conv where "find (\<lambda>conv. conv_id conv = cid) (conversations s) = Some conv"
    using find_None_iff_ids [of cid "conversations s"] by (auto simp: conversation_ids_def)
  from deleteConversation_current [OF this] assms(1) show ?thesis by simp
qed

text \<open>
  \<^bold>\<open>Claim C9.\<close> The claim has the current id be \<open>null\<close> or the id of a listed
  conversation in every reachable state, every exported operation keeping it so. All
  operations do (\<open>step_valid\<close>), and deleting the current conversation re-points the id
  (\<open>deleteConversation_repoints\<close>), but \<open>loadConversations\<close> does so only when the list
  in storage agrees with the store, as it does while every write succeeds
  (\<open>current_valid_while_writes_succeed\<close>). It installs the stored list and sets the
  current id only when there is none; an id that is set is never checked against the
  list installed. On a store created over a full storage that holds the conversation
  \<open>c1\<close>, a new conversation \<open>c2\<close> becomes current but is not saved; a reload then
  installs the list without it, and the current id \<open>c2\<close> names no conversation.
\<close>

theorem reload_leaves_dangling_current_id:
  "current_valid (run [CreateNewConversation no_settings ''c2'' 6] created_on_full_storage) \<and>
   \<not> current_valid
       (run [CreateNewConversation no_settings ''c2'' 6, LoadConversations] created_on_full_storage) \<and>
   conversation_ids
     (run [CreateNewConversation no_settings ''c2'' 6, LoadConversations] created_on_full_storage) =
     [''c1''] \<and>
   currentConversationId
     (run [CreateNewConversation no_settings ''c2'' 6, LoadConversations] created_on_full_storage) =
     Some ''c2'' \<and>
   currentConversation
     (run [CreateNewConversation no_settings ''c2'' 6, LoadConversations] created_on_full_storage) =
     None"
  by (simp add: eval_defs2)

section \<open>Properties of the supervisor router\<close>















end
